theory Spec2Isabelle
  imports Main "HOL-Library.Sublist"
begin

section \<open>The sequence store of seq.c\<close>

text \<open>
  The store of seq.c is a tree in which every node has three sons, one for each of the
  symbols 0, 1 and 2. The tree owns its nodes (no node has two parents), so a
  \<open>seq_t *\<close> is modelled by the value it points to: \<open>Null\<close> for the NULL pointer, \<open>Node\<close>
  for a node with its three sons, its class name and its class number. A pointer into the
  tree that the code keeps in a local variable (\<open>current_seq_node\<close>, \<open>second_to_last\<close>) is
  the list of symbols leading from the root to the node; \<open>node_at\<close> reads through such a
  pointer and \<open>assign_at\<close> writes through it.

  Functions return their C result together with the changed objects. A function that can
  run into undefined behaviour of C (a NULL argument of \<open>strcmp\<close> or \<open>strlen\<close>, the overflow
  of the \<open>int\<close> counter) returns an option, \<open>None\<close> being the undefined behaviour.
  Lengths are computed into an \<open>int\<close> by the source; strings of more than \<open>INT_MAX\<close>
  characters are outside the model.
\<close>

subsection \<open>Strings, errno and the allocator\<close>

text \<open>
  A \<open>char const *\<close> argument: NULL, or the address of a string and the characters
  before its terminating NUL.
\<close>

datatype char_ptr = Null_ptr | Ptr nat string

fun chars_of :: "char_ptr \<Rightarrow> string" where
  "chars_of Null_ptr = []"
| "chars_of (Ptr a cs) = cs"

text \<open>The comparison \<open>s1 == s2\<close> of two pointers compares the addresses.\<close>

fun ptr_eq :: "char_ptr \<Rightarrow> char_ptr \<Rightarrow> bool" where
  "ptr_eq Null_ptr Null_ptr = True"
| "ptr_eq (Ptr a cs) (Ptr b ds) = (a = b)"
| "ptr_eq _ _ = False"

text \<open>The values of errno.h and limits.h on the platform of the Makefile (gcc, Linux).\<close>

definition EINVAL :: int where
  "EINVAL = 22"

definition ENOMEM :: int where
  "ENOMEM = 12"

definition INT_MAX :: int where
  "INT_MAX = 2147483647"

text \<open>
  The environment of a call: \<open>errno\<close>; the outcomes of the coming calls of \<open>malloc\<close>
  (the library is linked with \<open>--wrap=malloc\<close>, so that a test harness decides which
  allocations fail; \<open>False\<close> is a failing allocation, and when the list is used up every
  allocation succeeds); and the number of blocks that are allocated and not freed. The
  contents of the blocks are the nodes and names of the store; the number is kept to
  follow what the code frees.
\<close>

record env =
  errno :: int
  mallocs :: "bool list"
  allocated :: int

definition malloc :: "env \<Rightarrow> bool \<times> env" where
  "malloc e =
     (case mallocs e of
        [] \<Rightarrow> (True, e\<lparr>allocated := allocated e + 1\<rparr>)
      | b # bs \<Rightarrow> (b, e\<lparr>mallocs := bs, allocated := (if b then allocated e + 1 else allocated e)\<rparr>))"

definition free :: "env \<Rightarrow> env" where
  "free e = e\<lparr>allocated := allocated e - 1\<rparr>"

text \<open>The statement \<open>if (name) free(name);\<close> for a name that may be NULL.\<close>

definition free_name :: "string option \<Rightarrow> env \<Rightarrow> env" where
  "free_name nm e = (if nm \<noteq> None then free e else e)"

text \<open>
  \<open>strcmp\<close>: zero exactly for equal strings (the program only tests the result for
  zero); a NULL argument is undefined behaviour.
\<close>

definition strcmp :: "string option \<Rightarrow> string option \<Rightarrow> int option" where
  "strcmp a b =
     (case a of None \<Rightarrow> None
      | Some x \<Rightarrow> (case b of None \<Rightarrow> None | Some y \<Rightarrow> Some (if x = y then 0 else 1)))"

text \<open>The operator \<open>||\<close>: the right operand is evaluated only when the left one is false.\<close>

definition or_else :: "bool \<Rightarrow> bool option \<Rightarrow> bool option" where
  "or_else a b = (if a then Some True else b)"

subsection \<open>Nodes\<close>

datatype seq =
  Null
| Node (next_zero: seq) (next_one: seq) (next_two: seq)
    (abstract_class_name: "string option") (abstract_class: int)

text \<open>
  A store: the tree under the root and \<open>*abstract_classes_amount\<close>, the counter that all
  nodes point to.
\<close>

record store =
  root :: seq
  abstract_classes_amount :: int

definition seq_new :: "env \<Rightarrow> store option \<times> env" where
  "seq_new e =
     (case malloc e of (got_seq, e1) \<Rightarrow>
      case malloc e1 of (got_classes, e2) \<Rightarrow>
        if \<not> got_seq \<or> \<not> got_classes
        then (None,
              (if got_classes then free else id)
                ((if got_seq then free else id) (e2\<lparr>errno := ENOMEM\<rparr>)))
        else (Some \<lparr>root = Node Null Null Null None (- 1), abstract_classes_amount = 0\<rparr>, e2))"

fun scan_str :: "string \<Rightarrow> int" where
  "scan_str [] = 0"
| "scan_str (c # cs) =
     (if c \<noteq> CHR ''0'' \<and> c \<noteq> CHR ''1'' \<and> c \<noteq> CHR ''2'' then - 1 else scan_str cs)"

definition check_str_for_inval :: "char_ptr \<Rightarrow> env \<Rightarrow> int \<times> env" where
  "check_str_for_inval s e =
     (case s of
        Null_ptr \<Rightarrow> (- 1, e\<lparr>errno := EINVAL\<rparr>)
      | Ptr a cs \<Rightarrow>
          if length cs = 0 then (- 1, e\<lparr>errno := EINVAL\<rparr>)
          else if scan_str cs = - 1 then (- 1, e\<lparr>errno := EINVAL\<rparr>)
          else (0, e))"

text \<open>
  \<open>check_seq_for_next\<close> and \<open>next_seq\<close>. The callers of \<open>check_seq_for_next\<close> pass a node
  that exists; on \<open>Null\<close> the model answers that there is no son.
\<close>

fun check_seq_for_next :: "seq \<Rightarrow> char \<Rightarrow> bool" where
  "check_seq_for_next Null val = False"
| "check_seq_for_next (Node z on tw nm k) val =
     (if val = CHR ''0'' \<and> z \<noteq> Null then True
      else if val = CHR ''1'' \<and> on \<noteq> Null then True
      else if val = CHR ''2'' \<and> tw \<noteq> Null then True
      else False)"

fun next_seq :: "seq \<Rightarrow> char \<Rightarrow> seq" where
  "next_seq Null next_char = Null"
| "next_seq (Node z on tw nm k) next_char =
     (if next_char = CHR ''0'' then z
      else if next_char = CHR ''1'' then on
      else if next_char = CHR ''2'' then tw
      else Null)"

text \<open>The assignments \<open>p->next_zero = v\<close>, \<open>p->next_one = v\<close> and \<open>p->next_two = v\<close>,
  chosen by the symbol as the source does; no assignment for another character.\<close>

fun set_next :: "seq \<Rightarrow> char \<Rightarrow> seq \<Rightarrow> seq" where
  "set_next Null c v = Null"
| "set_next (Node z on tw nm k) c v =
     (if c = CHR ''0'' then Node v on tw nm k
      else if c = CHR ''1'' then Node z v tw nm k
      else if c = CHR ''2'' then Node z on v nm k
      else Node z on tw nm k)"

fun set_abstract_class :: "seq \<Rightarrow> int \<Rightarrow> seq" where
  "set_abstract_class Null v = Null"
| "set_abstract_class (Node z on tw nm k) v = Node z on tw nm v"

fun set_abstract_class_name :: "seq \<Rightarrow> string option \<Rightarrow> seq" where
  "set_abstract_class_name Null v = Null"
| "set_abstract_class_name (Node z on tw nm k) v = Node z on tw v k"

text \<open>Reading and writing through a pointer into the tree, given by its path.\<close>

fun node_at :: "seq \<Rightarrow> string \<Rightarrow> seq" where
  "node_at p [] = p"
| "node_at p (c # cs) = node_at (next_seq p c) cs"

fun assign_at :: "seq \<Rightarrow> string \<Rightarrow> seq \<Rightarrow> seq" where
  "assign_at p [] v = v"
| "assign_at p (c # cs) v = set_next p c (assign_at (next_seq p c) cs v)"

definition new_seq_node :: "seq \<Rightarrow> char \<Rightarrow> env \<Rightarrow> int \<times> seq \<times> env" where
  "new_seq_node p new_val e =
     (if new_val \<noteq> CHR ''0'' \<and> new_val \<noteq> CHR ''1'' \<and> new_val \<noteq> CHR ''2''
      then (- 1, p, e\<lparr>errno := EINVAL\<rparr>)
      else if check_seq_for_next p new_val then (0, p, e)
      else case malloc e of (got, e1) \<Rightarrow>
        if \<not> got then (- 1, p, e1\<lparr>errno := ENOMEM\<rparr>)
        else (1, set_next p new_val (Node Null Null Null None (- 1)), e1))"

text \<open>
  The loop that \<open>seq_remove\<close>, \<open>seq_valid\<close>, \<open>seq_set_name\<close>, \<open>seq_get_name\<close> and
  \<open>seq_equiv\<close> all contain: follow the symbols of \<open>s\<close> from \<open>p\<close>; \<open>None\<close> when a son is
  missing (where the source leaves the function), the node reached otherwise.
\<close>

fun walk :: "seq \<Rightarrow> string \<Rightarrow> seq option" where
  "walk p [] = Some p"
| "walk p (c # cs) = (if \<not> check_seq_for_next p c then None else walk (next_seq p c) cs)"

subsection \<open>Adding and removing sequences\<close>

text \<open>
  \<open>seq_remove_recur\<close> frees the nodes and names of a subtree, the sons before the node.
  The subtree leaves the tree by the assignment of NULL to the son of its parent that
  follows each call of \<open>seq_remove_recur\<close> in the source.
\<close>

fun seq_remove_recur :: "seq \<Rightarrow> env \<Rightarrow> env" where
  "seq_remove_recur Null e = e"
| "seq_remove_recur (Node z on tw nm k) e =
     free (free_name nm (seq_remove_recur tw (seq_remove_recur on (seq_remove_recur z e))))"

text \<open>
  The loop of \<open>seq_add\<close>. Its state: the tree, \<open>current_seq_node\<close> (as a path), the index
  \<open>i\<close>, \<open>added_seqs\<close>, and \<open>first\<close>, which is \<open>None\<close> while \<open>first_added_seq\<close> is NULL and
  holds \<open>second_to_last\<close> and \<open>first_index\<close> afterwards; \<open>first_added_seq\<close> is then the
  son of \<open>second_to_last\<close> for the symbol \<open>s[first_index]\<close>.
\<close>

fun seq_add_loop ::
  "string \<Rightarrow> string \<Rightarrow> nat \<Rightarrow> seq \<Rightarrow> string \<Rightarrow> (string \<times> nat) option \<Rightarrow> int \<Rightarrow> env
    \<Rightarrow> int \<times> seq \<times> env" where
  "seq_add_loop s [] i rt current_seq_node first added_seqs e =
     ((if added_seqs > 0 then 1 else 0), rt, e)"
| "seq_add_loop s (c # cs) i rt current_seq_node first added_seqs e =
     (case new_seq_node (node_at rt current_seq_node) c e of
        (current_adding_result, nd, e1) \<Rightarrow>
          let rt1 = assign_at rt current_seq_node nd;
              first1 = (if first = None \<and> current_adding_result = 1
                        then Some (current_seq_node, i) else first)
          in if current_adding_result = - 1 then
               (case first1 of
                  Some (second_to_last, first_index) \<Rightarrow>
                    (- 1,
                     assign_at rt1 second_to_last
                       (set_next (node_at rt1 second_to_last) (s ! first_index) Null),
                     (seq_remove_recur (node_at rt1 (second_to_last @ [s ! first_index])) e1)
                       \<lparr>errno := ENOMEM\<rparr>)
                | None \<Rightarrow> (- 1, rt1, e1\<lparr>errno := ENOMEM\<rparr>))
             else seq_add_loop s cs (Suc i) rt1 (current_seq_node @ [c]) first1
                    (added_seqs + current_adding_result) e1)"

definition seq_add :: "store \<Rightarrow> char_ptr \<Rightarrow> env \<Rightarrow> int \<times> store \<times> env" where
  "seq_add st s e =
     (if root st = Null then (- 1, st, e\<lparr>errno := EINVAL\<rparr>)
      else if s = Null_ptr then (- 1, st, e\<lparr>errno := EINVAL\<rparr>)
      else case check_str_for_inval s e of (r, e1) \<Rightarrow>
        if r = - 1 then (- 1, st, e1)
        else case seq_add_loop (chars_of s) (chars_of s) 0 (root st) [] None 0 e1 of
          (res, rt, e2) \<Rightarrow> (res, st\<lparr>root := rt\<rparr>, e2))"

text \<open>
  \<open>seq_remove\<close>: \<open>second_to_last\<close> is the node reached before the last symbol, that is the
  node at the path \<open>butlast s\<close>, and the son cleared is the one of \<open>s[length - 1]\<close>.
\<close>

definition seq_remove :: "store \<Rightarrow> char_ptr \<Rightarrow> env \<Rightarrow> int \<times> store \<times> env" where
  "seq_remove st s e =
     (if root st = Null then (- 1, st, e\<lparr>errno := EINVAL\<rparr>)
      else case check_str_for_inval s e of (r, e1) \<Rightarrow>
        if r = - 1 then (- 1, st, e1)
        else
          (case walk (root st) (chars_of s) of
             None \<Rightarrow> (0, st, e1)
           | Some current_seq \<Rightarrow>
               (1,
                st\<lparr>root := assign_at (root st) (butlast (chars_of s))
                      (set_next (node_at (root st) (butlast (chars_of s)))
                         (last (chars_of s)) Null)\<rparr>,
                seq_remove_recur current_seq e1)))"

definition seq_valid :: "store \<Rightarrow> char_ptr \<Rightarrow> env \<Rightarrow> int \<times> env" where
  "seq_valid st s e =
     (case check_str_for_inval s e of (r, e1) \<Rightarrow>
        if r = - 1 then (- 1, e1)
        else if root st = Null then (- 1, e1\<lparr>errno := EINVAL\<rparr>)
        else (case walk (root st) (chars_of s) of
                None \<Rightarrow> (0, e1)
              | Some current_seq \<Rightarrow> (1, e1)))"

subsection \<open>Names\<close>

fun replace_or_set_seq_name :: "seq \<Rightarrow> string \<Rightarrow> env \<Rightarrow> int \<times> seq \<times> env" where
  "replace_or_set_seq_name Null n e = (0, Null, e)"
| "replace_or_set_seq_name (Node z on tw nm k) n e =
     (case malloc (free_name nm e) of (got, e1) \<Rightarrow>
        if \<not> got then (- 1, Node z on tw None k, e1\<lparr>errno := ENOMEM\<rparr>)
        else (1, Node z on tw (Some n) k, e1))"

fun recur_seq_name :: "seq \<Rightarrow> string \<Rightarrow> int \<Rightarrow> env \<Rightarrow> int \<times> seq \<times> env" where
  "recur_seq_name Null n current_abs_class e = (0, Null, e)"
| "recur_seq_name (Node z on tw nm k) n current_abs_class e =
     (case recur_seq_name z n current_abs_class e of (r_zero, z', e1) \<Rightarrow>
      case recur_seq_name on n current_abs_class e1 of (r_one, on', e2) \<Rightarrow>
      case recur_seq_name tw n current_abs_class e2 of (r_two, tw', e3) \<Rightarrow>
        if r_zero = - 1 \<or> r_one = - 1 \<or> r_two = - 1 then (- 1, Node z' on' tw' nm k, e3)
        else if k = current_abs_class then
          (case replace_or_set_seq_name (Node z' on' tw' nm k) n e3 of
             (r, p', e4) \<Rightarrow> ((if r = 1 then 1 else 0), p', e4))
        else (1, Node z' on' tw' nm k, e3))"

definition seq_set_name ::
  "store \<Rightarrow> char_ptr \<Rightarrow> char_ptr \<Rightarrow> env \<Rightarrow> (int \<times> store \<times> env) option" where
  "seq_set_name st s n e =
     (if root st = Null then Some (- 1, st, e\<lparr>errno := EINVAL\<rparr>)
      else case check_str_for_inval s e of (r, e1) \<Rightarrow>
        if r = - 1 then Some (- 1, st, e1)
        else
          (case n of
             Null_ptr \<Rightarrow> Some (- 1, st, e1\<lparr>errno := EINVAL\<rparr>)
           | Ptr a name \<Rightarrow>
               if length name = 0 then Some (- 1, st, e1\<lparr>errno := EINVAL\<rparr>)
               else
                 (case walk (root st) (chars_of s) of
                    None \<Rightarrow> Some (0, st, e1)
                  | Some current_seq \<Rightarrow>
                      if abstract_class current_seq = - 1 then
                        (case malloc e1 of (got, e2) \<Rightarrow>
                           if \<not> got then
                             Some (- 1,
                               st\<lparr>root := assign_at (root st) (chars_of s)
                                     (set_abstract_class_name current_seq None)\<rparr>,
                               e2\<lparr>errno := ENOMEM\<rparr>)
                           else if abstract_classes_amount st = INT_MAX then None
                           else
                             Some (1,
                               \<lparr>root = assign_at (root st) (chars_of s)
                                   (set_abstract_class
                                      (set_abstract_class_name current_seq (Some name))
                                      (abstract_classes_amount st + 1)),
                                abstract_classes_amount = abstract_classes_amount st + 1\<rparr>,
                               e2))
                      else if abstract_class_name current_seq = Some name then Some (0, st, e1)
                      else
                        (case recur_seq_name (root st) name (abstract_class current_seq) e1 of
                           (res, rt, e2) \<Rightarrow> Some (res, st\<lparr>root := rt\<rparr>, e2)))))"

text \<open>\<open>seq_get_name\<close>: the pointer returned (\<open>None\<close> for NULL) and the environment.\<close>

definition seq_get_name :: "store \<Rightarrow> char_ptr \<Rightarrow> env \<Rightarrow> string option \<times> env" where
  "seq_get_name st s e =
     (if root st = Null then (None, e\<lparr>errno := EINVAL\<rparr>)
      else case check_str_for_inval s e of (r, e1) \<Rightarrow>
        if r = - 1 then (None, e1)
        else
          (case walk (root st) (chars_of s) of
             None \<Rightarrow> (None, e1\<lparr>errno := 0\<rparr>)
           | Some current_seq \<Rightarrow>
               if current_seq \<noteq> Null \<and> abstract_class_name current_seq = None
               then (None, e1\<lparr>errno := 0\<rparr>)
               else (abstract_class_name current_seq, e1)))"

subsection \<open>Merging classes\<close>

definition singular_name :: "string option \<Rightarrow> env \<Rightarrow> (string option \<times> env) option" where
  "singular_name n e =
     (case n of
        None \<Rightarrow> None
      | Some name \<Rightarrow>
          (case malloc e of (got, e1) \<Rightarrow>
             if \<not> got then Some (None, e1\<lparr>errno := ENOMEM\<rparr>) else Some (Some name, e1)))"

text \<open>
  \<open>merge_names\<close>. With both arguments NULL the source returns the buffer as allocated;
  \<open>node_change\<close> calls it with two names only.
\<close>

definition merge_names :: "string option \<Rightarrow> string option \<Rightarrow> env \<Rightarrow> string option \<times> env" where
  "merge_names n1 n2 e =
     (case malloc e of (got, e1) \<Rightarrow>
        if \<not> got then (None, e1\<lparr>errno := ENOMEM\<rparr>)
        else
          (case n1 of
             Some a \<Rightarrow> (case n2 of Some b \<Rightarrow> (Some (a @ b), e1) | None \<Rightarrow> (Some a, e1))
           | None \<Rightarrow> (case n2 of Some b \<Rightarrow> (Some b, e1) | None \<Rightarrow> (Some [], e1))))"

fun node_change ::
  "seq \<Rightarrow> string option \<Rightarrow> string option \<Rightarrow> int \<Rightarrow> env \<Rightarrow> (int \<times> seq \<times> env) option" where
  "node_change Null n1 n2 abs_class_val e = Some (0, Null, e)"
| "node_change (Node z on tw nm k) n1 n2 abs_class_val e =
     (if n1 = None \<and> n2 = None then Some (1, Node z on tw None abs_class_val, free_name nm e)
      else
        case or_else (n1 \<noteq> None \<and> n2 = None) (map_option (\<lambda>r. r = 0) (strcmp n1 n2)) of
          None \<Rightarrow> None
        | Some True \<Rightarrow>
            (case singular_name n1 (free_name nm e) of
               None \<Rightarrow> None
             | Some (new_name, e1) \<Rightarrow>
                 Some ((if new_name = None then - 1 else 1),
                       Node z on tw new_name abs_class_val, e1))
        | Some False \<Rightarrow>
            (case or_else (n1 = None \<and> n2 \<noteq> None) (map_option (\<lambda>r. r = 0) (strcmp n1 n2)) of
               None \<Rightarrow> None
             | Some True \<Rightarrow>
                 (case singular_name n2 (free_name nm e) of
                    None \<Rightarrow> None
                  | Some (new_name, e1) \<Rightarrow>
                      Some ((if new_name = None then - 1 else 1),
                            Node z on tw new_name abs_class_val, e1))
             | Some False \<Rightarrow>
                 (case merge_names n1 n2 (free_name nm e) of
                    (new_name, e1) \<Rightarrow>
                      Some ((if new_name = None then - 1 else 1),
                            Node z on tw new_name abs_class_val, e1))))"

fun recur_equiv ::
  "seq \<Rightarrow> int \<Rightarrow> int \<Rightarrow> int \<Rightarrow> string option \<Rightarrow> string option \<Rightarrow> env
    \<Rightarrow> (int \<times> seq \<times> env) option" where
  "recur_equiv Null abs_class_1 abs_class_2 abs_class_n name_1 name_2 e = Some (0, Null, e)"
| "recur_equiv (Node z on tw nm p_abs) abs_class_1 abs_class_2 abs_class_n name_1 name_2 e =
     (case recur_equiv z abs_class_1 abs_class_2 abs_class_n name_1 name_2 e of
        None \<Rightarrow> None
      | Some (result_zero, z', e1) \<Rightarrow>
     (case recur_equiv on abs_class_1 abs_class_2 abs_class_n name_1 name_2 e1 of
        None \<Rightarrow> None
      | Some (result_one, on', e2) \<Rightarrow>
     (case recur_equiv tw abs_class_1 abs_class_2 abs_class_n name_1 name_2 e2 of
        None \<Rightarrow> None
      | Some (result_two, tw', e3) \<Rightarrow>
          if result_one = - 1 \<or> result_two = - 1 \<or> result_zero = - 1
          then Some (- 1, Node z' on' tw' nm p_abs, e3)
          else if p_abs \<noteq> - 1 \<and> (p_abs = abs_class_1 \<or> p_abs = abs_class_2)
          then node_change (Node z' on' tw' nm p_abs) name_1 name_2 abs_class_n e3
          else Some (0, Node z' on' tw' nm p_abs, e3))))"

text \<open>The copy of an endpoint's name that \<open>seq_equiv\<close> takes: no allocation for a node
  without a name; \<open>False\<close> when the allocation fails.\<close>

definition copy_name :: "string option \<Rightarrow> env \<Rightarrow> bool \<times> string option \<times> env" where
  "copy_name nm e =
     (case nm of
        None \<Rightarrow> (True, None, e)
      | Some a \<Rightarrow>
          (case malloc e of (got, e1) \<Rightarrow>
             if \<not> got then (False, None, e1\<lparr>errno := ENOMEM\<rparr>) else (True, Some a, e1)))"

text \<open>
  The end of \<open>seq_equiv\<close>: the three calls of \<open>recur_equiv\<close> on the sons of the root,
  the release of the two copies of the names, and the result.
\<close>

definition seq_equiv_scan ::
  "seq \<Rightarrow> int \<Rightarrow> int \<Rightarrow> int \<Rightarrow> int \<Rightarrow> string option \<Rightarrow> string option \<Rightarrow> env
    \<Rightarrow> (int \<times> store \<times> env) option" where
  "seq_equiv_scan p amount abs_class_1 abs_class_2 abs_class_n name_1 name_2 e =
     (case recur_equiv (next_zero p) abs_class_1 abs_class_2 abs_class_n name_1 name_2 e of
        None \<Rightarrow> None
      | Some (zero_seqs, z', e1) \<Rightarrow>
     (case recur_equiv (next_one p) abs_class_1 abs_class_2 abs_class_n name_1 name_2 e1 of
        None \<Rightarrow> None
      | Some (one_seqs, on', e2) \<Rightarrow>
     (case recur_equiv (next_two p) abs_class_1 abs_class_2 abs_class_n name_1 name_2 e2 of
        None \<Rightarrow> None
      | Some (two_seqs, tw', e3) \<Rightarrow>
          Some ((if zero_seqs \<noteq> - 1 \<and> one_seqs \<noteq> - 1 \<and> two_seqs \<noteq> - 1 then 1 else - 1),
                \<lparr>root = Node z' on' tw' (abstract_class_name p) (abstract_class p),
                 abstract_classes_amount = amount\<rparr>,
                free_name name_2 (free_name name_1 e3)))))"

text \<open>
  The second half of \<open>seq_equiv\<close>, from the choice of the new class number on. \<open>p1\<close> and
  \<open>p2\<close> are \<open>current_seq_1\<close> and \<open>current_seq_2\<close> as paths; when both sequences have the
  same characters they are one node, and each write is seen by the reads that follow.
\<close>

definition seq_equiv_classes ::
  "store \<Rightarrow> string \<Rightarrow> string \<Rightarrow> int \<Rightarrow> int \<Rightarrow> env \<Rightarrow> (int \<times> store \<times> env) option" where
  "seq_equiv_classes st p1 p2 abs_class_1 abs_class_2 e =
     (let abs_class_n = abstract_classes_amount st + 1;
          rt1 = assign_at (root st) p1 (set_abstract_class (node_at (root st) p1) abs_class_n);
          rt2 = assign_at rt1 p2 (set_abstract_class (node_at rt1 p2) abs_class_n);
          amount = abstract_classes_amount st + 1
      in case copy_name (abstract_class_name (node_at rt2 p1)) e of (got_1, name_1, e1) \<Rightarrow>
         if \<not> got_1 then Some (- 1, \<lparr>root = rt2, abstract_classes_amount = amount\<rparr>, e1)
         else case copy_name (abstract_class_name (node_at rt2 p2)) e1 of (got_2, name_2, e2) \<Rightarrow>
         if \<not> got_2 then Some (- 1, \<lparr>root = rt2, abstract_classes_amount = amount\<rparr>, e2)
         else
          (case node_change (node_at rt2 p1) name_1 name_2 abs_class_n e2 of
             None \<Rightarrow> None
           | Some (r1, nd1, e3) \<Rightarrow>
               if r1 = - 1
               then Some (- 1, \<lparr>root = assign_at rt2 p1 nd1, abstract_classes_amount = amount\<rparr>, e3)
               else
                (case node_change (node_at (assign_at rt2 p1 nd1) p2) name_1 name_2 abs_class_n e3 of
                   None \<Rightarrow> None
                 | Some (r2, nd2, e4) \<Rightarrow>
                     if r2 = - 1
                     then Some (- 1,
                            \<lparr>root = assign_at (assign_at rt2 p1 nd1) p2 nd2,
                             abstract_classes_amount = amount\<rparr>, e4)
                     else seq_equiv_scan (assign_at (assign_at rt2 p1 nd1) p2 nd2) amount
                            abs_class_1 abs_class_2 abs_class_n name_1 name_2 e4)))"

definition seq_equiv ::
  "store \<Rightarrow> char_ptr \<Rightarrow> char_ptr \<Rightarrow> env \<Rightarrow> (int \<times> store \<times> env) option" where
  "seq_equiv st s1 s2 e =
     (if root st = Null then Some (- 1, st, e\<lparr>errno := EINVAL\<rparr>)
      else if s1 = Null_ptr \<or> s2 = Null_ptr then Some (- 1, st, e\<lparr>errno := EINVAL\<rparr>)
      else case check_str_for_inval s1 e of (r1, e1) \<Rightarrow>
        if r1 = - 1 then Some (- 1, st, e1)
        else case check_str_for_inval s2 e1 of (r2, e2) \<Rightarrow>
        if r2 = - 1 then Some (- 1, st, e2)
        else if ptr_eq s1 s2 then Some (0, st, e2)
        else
          (case walk (root st) (chars_of s1) of
             None \<Rightarrow> Some (0, st, e2)
           | Some current_seq_1 \<Rightarrow>
               (case walk (root st) (chars_of s2) of
                  None \<Rightarrow> Some (0, st, e2)
                | Some current_seq_2 \<Rightarrow>
                    if abstract_class current_seq_1 \<noteq> - 1
                       \<and> abstract_class current_seq_1 = abstract_class current_seq_2
                    then Some (0, st, e2)
                    else if abstract_classes_amount st = INT_MAX then None
                    else seq_equiv_classes st (chars_of s1) (chars_of s2)
                           (abstract_class current_seq_1) (abstract_class current_seq_2) e2)))"

subsection \<open>Notions used in the statements and proofs\<close>

text \<open>The three symbols of a sequence.\<close>

definition digit :: "char \<Rightarrow> bool" where
  "digit c \<longleftrightarrow> c = CHR ''0'' \<or> c = CHR ''1'' \<or> c = CHR ''2''"

text \<open>
  What the loop of \<open>seq_add\<close> keeps true, \<open>rt0\<close> being the tree before the call: the
  current node exists and is reached by the symbols read so far; as long as no node was
  created the tree is \<open>rt0\<close>; afterwards all nodes created hang below the son of
  \<open>second_to_last\<close> chosen by \<open>s[first_index]\<close>, and clearing that son gives \<open>rt0\<close> back.
\<close>

definition rollback_inv ::
  "string \<Rightarrow> seq \<Rightarrow> seq \<Rightarrow> string \<Rightarrow> nat \<Rightarrow> (string \<times> nat) option \<Rightarrow> bool" where
  "rollback_inv s rt0 rt cur i first \<longleftrightarrow>
     rt \<noteq> Null \<and> walk rt cur \<noteq> None \<and> i = length cur \<and> prefix cur s \<and>
     (case first of
        None \<Rightarrow> rt = rt0
      | Some (stl, fi) \<Rightarrow>
          fi = length stl \<and> fi < length s \<and> prefix (stl @ [s ! fi]) cur \<and>
          assign_at rt stl (set_next (node_at rt stl) (s ! fi) Null) = rt0)"

text \<open>
  The number of blocks that a subtree is made of: one for each node and one for each
  name. With it, what the loop of \<open>seq_add\<close> keeps true of the number of allocated
  blocks, \<open>a0\<close> being the number before the call: the blocks allocated by the call are
  those of the subtree of \<open>first_added_seq\<close>.
\<close>

fun blocks :: "seq \<Rightarrow> int" where
  "blocks Null = 0"
| "blocks (Node z on tw nm k) = 1 + (if nm = None then 0 else 1) + blocks z + blocks on + blocks tw"

definition alloc_inv :: "string \<Rightarrow> int \<Rightarrow> seq \<Rightarrow> (string \<times> nat) option \<Rightarrow> env \<Rightarrow> bool" where
  "alloc_inv s a0 rt first e \<longleftrightarrow>
     (case first of
        None \<Rightarrow> allocated e = a0
      | Some (stl, fi) \<Rightarrow> allocated e = a0 + blocks (node_at rt (stl @ [s ! fi])))"

text \<open>
  Two stores used as concrete inputs. \<open>store_a\<close> holds the sequence 0, in class 1 with
  the name A, and the sequence 1, without class and name. \<open>store_c\<close> holds the sequences
  0, 01 and 02.
\<close>

definition store_a :: store where
  "store_a =
     \<lparr>root = Node (Node Null Null Null (Some ''A'') 1) (Node Null Null Null None (- 1)) Null
              None (- 1),
      abstract_classes_amount = 1\<rparr>"

definition store_c :: store where
  "store_c =
     \<lparr>root = Node (Node Null (Node Null Null Null None (- 1)) (Node Null Null Null None (- 1))
                    None (- 1)) Null Null None (- 1),
      abstract_classes_amount = 0\<rparr>"

text \<open>
  \<open>store_b\<close> holds the sequences 0 and 01, both in class 2 with the name A: the store
  after 01 was added, 0 was given the name A and the two were made equivalent.
\<close>

definition store_b :: store where
  "store_b =
     \<lparr>root = Node (Node Null (Node Null Null Null (Some ''A'') 2) Null (Some ''A'') 2) Null Null
              None (- 1),
      abstract_classes_amount = 2\<rparr>"

text \<open>
  The name and the class number of a node, nothing for NULL; and the predicate that the
  node at a path exists and has a given class number.
\<close>

fun label :: "seq \<Rightarrow> (string option \<times> int) option" where
  "label Null = None"
| "label (Node z on tw nm k) = Some (nm, k)"

definition in_class :: "seq \<Rightarrow> string \<Rightarrow> int \<Rightarrow> bool" where
  "in_class r p n \<longleftrightarrow> (\<exists>nm. label (node_at r p) = Some (nm, n))"

text \<open>
  The class numbers on the nodes of a tree. The invariant of a store: the root exists
  and has no class, the counter is not negative, and every class number on a node is
  \<open>-1\<close> or lies between 1 and the counter.
\<close>

fun classes_in :: "seq \<Rightarrow> int list" where
  "classes_in Null = []"
| "classes_in (Node z on tw nm k) = k # classes_in z @ classes_in on @ classes_in tw"

definition store_inv :: "store \<Rightarrow> bool" where
  "store_inv st \<longleftrightarrow>
     root st \<noteq> Null \<and> abstract_class (root st) = - 1 \<and> 0 \<le> abstract_classes_amount st
     \<and> (\<forall>k \<in> set (classes_in (root st)). k = - 1 \<or> (1 \<le> k \<and> k \<le> abstract_classes_amount st))"

text \<open>
  The calls of a client, and a run of calls on a store: the list of the stores the run
  passes through, the first being the store it starts with. A run in which a call has
  undefined behaviour has no result.
\<close>

datatype call =
  Add char_ptr | Remove char_ptr | Valid char_ptr
| Set_name char_ptr char_ptr | Get_name char_ptr | Equiv char_ptr char_ptr

fun call_step :: "call \<Rightarrow> store \<Rightarrow> env \<Rightarrow> (store \<times> env) option" where
  "call_step (Add s) st e = (case seq_add st s e of (r, st', e') \<Rightarrow> Some (st', e'))"
| "call_step (Remove s) st e = (case seq_remove st s e of (r, st', e') \<Rightarrow> Some (st', e'))"
| "call_step (Valid s) st e = (case seq_valid st s e of (r, e') \<Rightarrow> Some (st, e'))"
| "call_step (Set_name s n) st e =
     (case seq_set_name st s n e of None \<Rightarrow> None | Some (r, st', e') \<Rightarrow> Some (st', e'))"
| "call_step (Get_name s) st e = (case seq_get_name st s e of (r, e') \<Rightarrow> Some (st, e'))"
| "call_step (Equiv s1 s2) st e =
     (case seq_equiv st s1 s2 e of None \<Rightarrow> None | Some (r, st', e') \<Rightarrow> Some (st', e'))"

fun run :: "call list \<Rightarrow> store \<Rightarrow> env \<Rightarrow> store list option" where
  "run [] st e = Some [st]"
| "run (c # cs) st e =
     (case call_step c st e of
        None \<Rightarrow> None
      | Some (st', e') \<Rightarrow> (case run cs st' e' of None \<Rightarrow> None | Some h \<Rightarrow> Some (st # h)))"

text \<open>
  What one call does to the counter and the class numbers: either the counter stays and
  no class number appears on a node that was on none before, or the counter advances by
  one, the only class number that can appear is the new value of the counter, and that
  value is on a node.
\<close>

definition mints :: "store \<Rightarrow> store \<Rightarrow> bool" where
  "mints st st' \<longleftrightarrow>
     (abstract_classes_amount st' = abstract_classes_amount st
        \<and> set (classes_in (root st')) \<subseteq> set (classes_in (root st)))
     \<or> (abstract_classes_amount st' = abstract_classes_amount st + 1
        \<and> set (classes_in (root st')) \<subseteq> insert (abstract_classes_amount st + 1) (set (classes_in (root st)))
        \<and> abstract_classes_amount st + 1 \<in> set (classes_in (root st')))"

text \<open>
  \<open>same_top\<close>: the second tree has a root with the class number of the first one's;
  \<open>grows\<close>: in addition its class numbers are those of the first tree and \<open>n\<close>.
\<close>

definition same_top :: "seq \<Rightarrow> seq \<Rightarrow> bool" where
  "same_top r r' \<longleftrightarrow> (r \<noteq> Null \<longrightarrow> r' \<noteq> Null \<and> abstract_class r' = abstract_class r)"

definition grows :: "int \<Rightarrow> seq \<Rightarrow> seq \<Rightarrow> bool" where
  "grows n r r' \<longleftrightarrow> set (classes_in r') \<subseteq> insert n (set (classes_in r)) \<and> same_top r r'"

text \<open>
  The stores of an example run: two sequences are added, the first is given a name, and
  the two are made equivalent.
\<close>

definition example_run :: "store list" where
  "example_run =
     [\<lparr>root = Node Null Null Null None (- 1), abstract_classes_amount = 0\<rparr>,
      \<lparr>root = Node (Node Null Null Null None (- 1)) Null Null None (- 1),
       abstract_classes_amount = 0\<rparr>,
      \<lparr>root = Node (Node Null Null Null None (- 1)) (Node Null Null Null None (- 1)) Null
               None (- 1),
       abstract_classes_amount = 0\<rparr>,
      \<lparr>root = Node (Node Null Null Null (Some ''A'') 1) (Node Null Null Null None (- 1)) Null
               None (- 1),
       abstract_classes_amount = 1\<rparr>,
      \<lparr>root = Node (Node Null Null Null (Some ''A'') 2) (Node Null Null Null (Some ''A'') 2) Null
               None (- 1),
       abstract_classes_amount = 2\<rparr>]"

section \<open>Properties\<close>

subsection \<open>The example stores are built by the operations\<close>

text \<open>
  Each example store is the result of calls of the operations on a new store, and the
  number of allocated blocks that goes with it is the number of its nodes and names
  plus two (the root is a node; the counter is a block).
\<close>

lemma store_a_built:
  "Option.bind (fst (seq_new \<lparr>errno = 0, mallocs = [], allocated = 0\<rparr>))
     (\<lambda>st0. case seq_add st0 (Ptr 1 ''0'') (snd (seq_new \<lparr>errno = 0, mallocs = [], allocated = 0\<rparr>)) of
        (r1, st1, e1) \<Rightarrow>
      case seq_add st1 (Ptr 2 ''1'') e1 of (r2, st2, e2) \<Rightarrow>
        map_option (\<lambda>(r3, st3, e3). (st3, e3)) (seq_set_name st2 (Ptr 1 ''0'') (Ptr 3 ''A'') e2))
   = Some (store_a, \<lparr>errno = 0, mallocs = [], allocated = 5\<rparr>)"
  by code_simp

lemma store_c_built:
  "Option.bind (fst (seq_new \<lparr>errno = 0, mallocs = [], allocated = 0\<rparr>))
     (\<lambda>st0. case seq_add st0 (Ptr 1 ''0'') (snd (seq_new \<lparr>errno = 0, mallocs = [], allocated = 0\<rparr>)) of
        (r1, st1, e1) \<Rightarrow>
      case seq_add st1 (Ptr 2 ''01'') e1 of (r2, st2, e2) \<Rightarrow>
      case seq_add st2 (Ptr 3 ''02'') e2 of (r3, st3, e3) \<Rightarrow> Some (st3, e3))
   = Some (store_c, \<lparr>errno = 0, mallocs = [], allocated = 5\<rparr>)"
  by code_simp

lemma store_b_built:
  "Option.bind (fst (seq_new \<lparr>errno = 0, mallocs = [], allocated = 0\<rparr>))
     (\<lambda>st0. case seq_add st0 (Ptr 1 ''01'') (snd (seq_new \<lparr>errno = 0, mallocs = [], allocated = 0\<rparr>)) of
        (r1, st1, e1) \<Rightarrow>
      Option.bind (seq_set_name st1 (Ptr 2 ''0'') (Ptr 3 ''A'') e1) (\<lambda>(r2, st2, e2).
        map_option (\<lambda>(r3, st3, e3). (st3, e3)) (seq_equiv st2 (Ptr 2 ''0'') (Ptr 1 ''01'') e2)))
   = Some (store_b, \<lparr>errno = 0, mallocs = [], allocated = 6\<rparr>)"
  by code_simp

subsection \<open>Valid sequences and paths\<close>

lemma check_seq_for_next_iff: "check_seq_for_next p c \<longleftrightarrow> next_seq p c \<noteq> Null"
  by (cases p) auto

lemma scan_str_cases: "scan_str cs = 0 \<or> scan_str cs = - 1"
  by (induction cs) auto

lemma check_str_for_inval_ok:
  assumes "fst (check_str_for_inval s e) = 0"
  shows "check_str_for_inval s e' = (0, e')" and "s \<noteq> Null_ptr" and "chars_of s \<noteq> []"
    and "scan_str (chars_of s) = 0"
  using assms scan_str_cases [of "chars_of s"]
  by (cases s; auto simp: check_str_for_inval_def split: if_splits)+

lemma walk_node_at: "walk p cs = Some v \<Longrightarrow> v = node_at p cs"
  by (induction cs arbitrary: p) (auto split: if_splits)

lemma walk_not_Null: "walk p cs = Some v \<Longrightarrow> p \<noteq> Null \<Longrightarrow> v \<noteq> Null"
  by (induction cs arbitrary: p) (auto split: if_splits simp: check_seq_for_next_iff)

lemma walk_Null: "walk Null cs = (if cs = [] then Some Null else None)"
  by (cases cs) auto

lemma walk_append:
  "walk p (as @ bs) = (case walk p as of None \<Rightarrow> None | Some v \<Rightarrow> walk v bs)"
  by (induction as arbitrary: p) auto

lemma walk_Cons_Some:
  "walk p (c # cs) \<noteq> None \<Longrightarrow> p \<noteq> Null \<and> digit c \<and> next_seq p c \<noteq> Null \<and> walk (next_seq p c) cs \<noteq> None"
  by (cases p) (auto simp: digit_def split: if_splits)

lemma walk_snoc:
  "walk p cur \<noteq> None \<Longrightarrow> next_seq (node_at p cur) c \<noteq> Null \<Longrightarrow> walk p (cur @ [c]) \<noteq> None"
  by (auto simp: walk_append check_seq_for_next_iff dest: walk_node_at split: option.splits)

lemma node_at_Null: "node_at Null q = Null"
  by (induction q) auto

lemma walk_iff: "walk r q = None \<longleftrightarrow> q \<noteq> [] \<and> node_at r q = Null"
proof (induction q arbitrary: r)
  case Nil
  then show ?case by simp
next
  case (Cons c cs)
  show ?case
  proof (cases "next_seq r c = Null")
    case True
    then show ?thesis by (simp add: check_seq_for_next_iff node_at_Null)
  next
    case False
    with Cons.IH [of "next_seq r c"] show ?thesis
      by (cases cs) (auto simp: check_seq_for_next_iff)
  qed
qed

lemma seq_valid_walk:
  "fst (check_str_for_inval s e) = 0 \<Longrightarrow> root st \<noteq> Null \<Longrightarrow>
   seq_valid st s e = ((if walk (root st) (chars_of s) = None then 0 else 1), e)"
  by (auto simp: seq_valid_def check_str_for_inval_ok split: option.splits)

subsection \<open>Reading and writing through paths\<close>

lemma next_seq_set_next:
  "next_seq (set_next p c v) d =
     (if p = Null then Null else if d = c \<and> digit c then v else next_seq p d)"
  by (cases p) (auto simp: digit_def)

lemma set_next_next_seq: "next_seq p c = Null \<Longrightarrow> set_next p c Null = p"
  by (cases p) (auto split: if_splits)

lemma set_next_same: "set_next p c (next_seq p c) = p"
  by (cases p) auto

lemma set_next_twice: "set_next (set_next p c v) c w = set_next p c w"
  by (cases p) auto

lemma set_next_Null_iff: "set_next p c v = Null \<longleftrightarrow> p = Null"
  by (cases p) auto

lemma assign_at_node_at: "assign_at p cs (node_at p cs) = p"
  by (induction cs arbitrary: p) (auto simp: set_next_same)

lemma assign_at_twice: "assign_at (assign_at p cs v) cs w = assign_at p cs w"
proof (induction cs arbitrary: p)
  case Nil
  then show ?case by simp
next
  case (Cons c cs)
  show ?case
  proof (cases "p = Null \<or> \<not> digit c")
    case True
    then show ?thesis by (cases p) (auto simp: digit_def)
  next
    case False
    then show ?thesis
      by (simp add: set_next_twice next_seq_set_next Cons.IH)
  qed
qed

lemma node_at_assign_at: "walk p cs \<noteq> None \<Longrightarrow> node_at (assign_at p cs v) cs = v"
proof (induction cs arbitrary: p)
  case Nil
  then show ?case by simp
next
  case (Cons c cs)
  from walk_Cons_Some [OF Cons.prems] Cons.IH show ?case
    by (simp add: next_seq_set_next)
qed

lemma assign_at_append:
  "walk p as \<noteq> None \<Longrightarrow> assign_at p (as @ bs) v = assign_at p as (assign_at (node_at p as) bs v)"
proof (induction as arbitrary: p)
  case Nil
  then show ?case by simp
next
  case (Cons c cs)
  from walk_Cons_Some [OF Cons.prems] Cons.IH show ?case by simp
qed

lemma node_at_append: "node_at p (as @ bs) = node_at (node_at p as) bs"
  by (induction as arbitrary: p) auto

subsection \<open>Removing a subtree\<close>

text \<open>
  After the son for the last symbol of \<open>cs\<close> is cleared in the node before it, the
  sequences that can still be followed are those that could be followed before and do
  not begin with \<open>cs\<close>.
\<close>

lemma walk_detach:
  "walk p cs \<noteq> None \<Longrightarrow> cs \<noteq> [] \<Longrightarrow>
   (walk (assign_at p (butlast cs) (set_next (node_at p (butlast cs)) (last cs) Null)) t = None)
     = (prefix cs t \<or> walk p t = None)"
proof (induction cs arbitrary: p t)
  case Nil
  then show ?case by simp
next
  case (Cons c cs)
  note w = walk_Cons_Some [OF Cons.prems(1)]
  show ?case
  proof (cases cs)
    case Nil
    with w show ?thesis
      by (cases t) (auto simp: check_seq_for_next_iff next_seq_set_next)
  next
    case (Cons c' cs')
    let ?child = "assign_at (next_seq p c) (butlast cs) (set_next (node_at (next_seq p c) (butlast cs)) (last cs) Null)"
    have nn: "?child \<noteq> Null"
    proof (cases "butlast cs")
      case Nil
      with w show ?thesis by (simp add: set_next_Null_iff)
    next
      case (Cons x xs)
      with w show ?thesis by (simp add: set_next_Null_iff)
    qed
    have ih: "\<And>t. (walk ?child t = None) = (prefix cs t \<or> walk (next_seq p c) t = None)"
      using Cons.IH [of "next_seq p c"] w Cons by simp
    show ?thesis
    proof (cases t)
      case Nil
      then show ?thesis by simp
    next
      case (Cons d ds)
      with w nn ih [of ds] \<open>cs = c' # cs'\<close> show ?thesis
        by (auto simp: check_seq_for_next_iff next_seq_set_next)
    qed
  qed
qed

subsection \<open>The loop of \<open>seq_add\<close>\<close>

lemma new_seq_node_cases:
  assumes "new_seq_node p c e = (r, nd, e')"
  shows "(r = - 1 \<and> nd = p) \<or> (r = 0 \<and> nd = p \<and> e' = e \<and> digit c \<and> next_seq p c \<noteq> Null)
       \<or> (r = 1 \<and> digit c \<and> next_seq p c = Null \<and> nd = set_next p c (Node Null Null Null None (- 1)))"
  using assms
  by (auto simp: new_seq_node_def digit_def check_seq_for_next_iff split: if_splits prod.splits)

lemma walk_assign_at_new:
  assumes "walk p cur \<noteq> None" and "p \<noteq> Null" and "digit c"
  shows "walk (assign_at p cur (set_next (node_at p cur) c (Node z on tw nm k))) (cur @ [c]) \<noteq> None"
  using assms
proof (induction cur arbitrary: p)
  case Nil
  then show ?case by (cases p) (auto simp: digit_def)
next
  case (Cons d ds)
  from walk_Cons_Some [OF Cons.prems(1)] Cons.IH [of "next_seq p d"] Cons.prems
  show ?case
    by (auto simp: check_seq_for_next_iff next_seq_set_next walk_Null)
qed

lemma detach_below:
  assumes "walk rt (stl @ ch # rest) \<noteq> None"
  shows "assign_at (assign_at rt (stl @ ch # rest) v) stl
           (set_next (node_at (assign_at rt (stl @ ch # rest) v) stl) ch Null)
         = assign_at rt stl (set_next (node_at rt stl) ch Null)"
proof -
  from assms have w: "walk rt stl \<noteq> None"
    by (auto simp: walk_append split: option.splits)
  have a: "assign_at rt (stl @ ch # rest) v = assign_at rt stl (assign_at (node_at rt stl) (ch # rest) v)"
    by (rule assign_at_append [OF w])
  show ?thesis
    by (simp add: a node_at_assign_at [OF w] assign_at_twice set_next_twice)
qed

lemma seq_remove_recur_fields:
  "allocated (seq_remove_recur p e) = allocated e - blocks p"
  "errno (seq_remove_recur p e) = errno e"
  "mallocs (seq_remove_recur p e) = mallocs e"
  by (induction p arbitrary: e) (auto simp: free_def free_name_def)

lemma blocks_set_next:
  "p \<noteq> Null \<Longrightarrow> digit c \<Longrightarrow> blocks (set_next p c v) = blocks p - blocks (next_seq p c) + blocks v"
  by (cases p) (auto simp: digit_def)

lemma blocks_add_leaf:
  assumes "walk x rest \<noteq> None" and "x \<noteq> Null" and "digit c"
    and "next_seq (node_at x rest) c = Null"
  shows "blocks (assign_at x rest (set_next (node_at x rest) c (Node Null Null Null None k))) = blocks x + 1"
  using assms
proof (induction rest arbitrary: x)
  case Nil
  then show ?case by (simp add: blocks_set_next)
next
  case (Cons d ds)
  from walk_Cons_Some [OF Cons.prems(1)] Cons.IH [of "next_seq x d"] Cons.prems
  show ?case by (simp add: blocks_set_next)
qed

lemma new_seq_node_allocated:
  assumes "new_seq_node p c e = (r, nd, e')"
  shows "allocated e' = (if r = 1 then allocated e + 1 else allocated e)"
  using assms
  by (auto simp: new_seq_node_def malloc_def split: if_splits prod.splits list.splits)

lemma seq_add_loop_rollback:
  assumes "seq_add_loop s cs i rt cur first added e = (- 1, rt', e')"
    and "rollback_inv s rt0 rt cur i first" and "s = cur @ cs"
    and "alloc_inv s a0 rt first e"
  shows "rt' = rt0 \<and> errno e' = ENOMEM \<and> allocated e' = a0"
  using assms
proof (induction cs arbitrary: i rt cur first added e)
  case Nil
  then show ?case by (simp split: if_splits)
next
  case (Cons c cs)
  obtain r nd e1 where n: "new_seq_node (node_at rt cur) c e = (r, nd, e1)"
    by (cases "new_seq_node (node_at rt cur) c e")
  note al = new_seq_node_allocated [OF n]
  from Cons.prems(2) have rt: "rt \<noteq> Null" and w: "walk rt cur \<noteq> None" and i: "i = length cur"
    by (auto simp: rollback_inv_def)
  have sc: "s ! i = c" using Cons.prems(3) i by simp
  from new_seq_node_cases [OF n] consider
      (fail) "r = - 1" "nd = node_at rt cur"
    | (old) "r = 0" "nd = node_at rt cur" "e1 = e" "digit c" "next_seq (node_at rt cur) c \<noteq> Null"
    | (new) "r = 1" "digit c" "next_seq (node_at rt cur) c = Null"
        "nd = set_next (node_at rt cur) c (Node Null Null Null None (- 1))"
    by blast
  then show ?case
  proof cases
    case fail
    with Cons.prems(1,2,4) n al show ?thesis
      by (auto simp: assign_at_node_at rollback_inv_def alloc_inv_def seq_remove_recur_fields
          split: option.splits)
  next
    case old
    have inv: "rollback_inv s rt0 rt (cur @ [c]) (Suc i) first"
      using Cons.prems(2,3) old walk_snoc [OF w old(5)]
      by (auto simp: rollback_inv_def split: option.splits)
    from Cons.prems(1) n old
    have "seq_add_loop s cs (Suc i) rt (cur @ [c]) first added e = (- 1, rt', e')"
      by (simp add: assign_at_node_at)
    from Cons.IH [OF this inv _ Cons.prems(4)] Cons.prems(3) show ?thesis by simp
  next
    case new
    let ?rt1 = "assign_at rt cur nd"
    let ?first1 = "if first = None then Some (cur, i) else first"
    have w1: "walk ?rt1 (cur @ [c]) \<noteq> None"
      unfolding new(4) by (rule walk_assign_at_new [OF w rt new(2)])
    have rt1: "?rt1 \<noteq> Null"
      using w1 by (auto simp: walk_Null)
    have d: "case ?first1 of None \<Rightarrow> ?rt1 = rt0
      | Some (stl, fi) \<Rightarrow> fi = length stl \<and> fi < length s \<and> prefix (stl @ [s ! fi]) (cur @ [c]) \<and>
          assign_at ?rt1 stl (set_next (node_at ?rt1 stl) (s ! fi) Null) = rt0"
    proof (cases first)
      case None
      have "assign_at ?rt1 cur (set_next (node_at ?rt1 cur) c Null) = rt"
        by (simp add: node_at_assign_at [OF w] assign_at_twice new(4) set_next_twice
            set_next_next_seq [OF new(3)] assign_at_node_at)
      with None Cons.prems(2,3) sc i show ?thesis
        by (auto simp: rollback_inv_def)
    next
      case (Some a)
      obtain stl fi where a: "a = (stl, fi)" by (cases a)
      from Cons.prems(2) Some a have p: "prefix (stl @ [s ! fi]) cur"
        and f: "fi = length stl" "fi < length s"
        and r0: "assign_at rt stl (set_next (node_at rt stl) (s ! fi) Null) = rt0"
        by (auto simp: rollback_inv_def)
      from p obtain rest where cur: "cur = stl @ (s ! fi) # rest"
        by (auto simp: prefix_def)
      have "assign_at ?rt1 stl (set_next (node_at ?rt1 stl) (s ! fi) Null)
            = assign_at rt stl (set_next (node_at rt stl) (s ! fi) Null)"
        using detach_below [of rt stl "s ! fi" rest nd] w cur by simp
      with Some a r0 f p show ?thesis by (auto simp: prefix_def)
    qed
    have inv: "rollback_inv s rt0 ?rt1 (cur @ [c]) (Suc i) ?first1"
      using d w1 rt1 i Cons.prems(3) by (auto simp: rollback_inv_def)
    have ainv: "alloc_inv s a0 ?rt1 ?first1 e1"
    proof (cases first)
      case None
      have "node_at ?rt1 (cur @ [c]) = Node Null Null Null None (- 1)"
        using w rt new(2)
        by (cases "node_at rt cur")
          (auto simp: node_at_append node_at_assign_at new(4) digit_def walk_iff)
      with None Cons.prems(4) al new(1) sc show ?thesis
        by (simp add: alloc_inv_def)
    next
      case (Some a)
      obtain stl fi where a: "a = (stl, fi)" by (cases a)
      from Cons.prems(2) Some a have p: "prefix (stl @ [s ! fi]) cur"
        by (auto simp: rollback_inv_def)
      then obtain rest where cur: "cur = (stl @ [s ! fi]) @ rest"
        by (auto simp: prefix_def)
      let ?x = "node_at rt (stl @ [s ! fi])"
      from w cur have "walk rt ((stl @ [s ! fi]) @ rest) \<noteq> None" by simp
      then obtain v where v: "walk rt (stl @ [s ! fi]) = Some v" "walk v rest \<noteq> None"
        unfolding walk_append [of rt "stl @ [s ! fi]" rest] by (auto split: option.splits)
      from v walk_node_at [OF v(1)]
      have wx: "walk rt (stl @ [s ! fi]) \<noteq> None" and wr: "walk ?x rest \<noteq> None" by auto
      from wx have xn: "?x \<noteq> Null" by (simp add: walk_iff)
      have nc: "node_at rt cur = node_at ?x rest" by (simp add: cur node_at_append)
      have "node_at ?rt1 (stl @ [s ! fi]) = assign_at ?x rest nd"
        unfolding cur by (simp only: assign_at_append [OF wx] node_at_assign_at [OF wx])
      also have "blocks \<dots> = blocks ?x + 1"
        unfolding new(4) nc using blocks_add_leaf [OF wr xn new(2)] new(3) nc by simp
      finally have "blocks (node_at ?rt1 (stl @ [s ! fi])) = blocks ?x + 1" .
      with Some a Cons.prems(4) al new(1) show ?thesis
        by (simp add: alloc_inv_def)
    qed
    from Cons.prems(1) n new
    have "seq_add_loop s cs (Suc i) ?rt1 (cur @ [c]) ?first1 (added + 1) e1 = (- 1, rt', e')"
      by (simp add: Let_def)
    from Cons.IH [OF this inv _ ainv] Cons.prems(3) show ?thesis by simp
  qed
qed

subsection \<open>Renaming a class\<close>

text \<open>
  \<open>recur_seq_name\<close> never returns \<open>-1\<close>: the result \<open>-1\<close> of
  \<open>replace_or_set_seq_name\<close> is compared with \<open>1\<close> and so becomes \<open>0\<close>.
\<close>

lemma recur_seq_name_result: "recur_seq_name p n c e = (r, p', e') \<Longrightarrow> r \<noteq> - 1"
proof (induction p arbitrary: e r p' e')
  case Null
  then show ?case by simp
next
  case (Node z on tw nm k)
  obtain r0 z' e1 where a: "recur_seq_name z n c e = (r0, z', e1)" by (cases "recur_seq_name z n c e")
  obtain r1 on' e2 where b: "recur_seq_name on n c e1 = (r1, on', e2)" by (cases "recur_seq_name on n c e1")
  obtain r2 tw' e3 where d: "recur_seq_name tw n c e2 = (r2, tw', e3)" by (cases "recur_seq_name tw n c e2")
  from Node.IH(1) [OF a] Node.IH(2) [OF b] Node.IH(3) [OF d] Node.prems a b d
  show ?case by (auto split: if_splits prod.splits)
qed

lemma seq_add_loop_present:
  assumes "seq_add_loop s cs i rt cur first added e = (r, rt', e')" and "r \<noteq> - 1"
    and "rt \<noteq> Null" and "walk rt cur \<noteq> None"
  shows "walk rt' (cur @ cs) \<noteq> None \<and> rt' \<noteq> Null"
  using assms
proof (induction cs arbitrary: i rt cur first added e)
  case Nil
  then show ?case by (auto split: if_splits)
next
  case (Cons c cs)
  obtain x nd e1 where n: "new_seq_node (node_at rt cur) c e = (x, nd, e1)"
    by (cases "new_seq_node (node_at rt cur) c e")
  let ?rt1 = "assign_at rt cur nd"
  from new_seq_node_cases [OF n] consider
      (fail) "x = - 1"
    | (old) "x = 0" "nd = node_at rt cur" "next_seq (node_at rt cur) c \<noteq> Null"
    | (new) "x = 1" "digit c" "nd = set_next (node_at rt cur) c (Node Null Null Null None (- 1))"
    by blast
  then have "x \<noteq> - 1 \<and> walk ?rt1 (cur @ [c]) \<noteq> None"
  proof cases
    case fail
    with Cons.prems(1,2) n show ?thesis by (auto simp: Let_def split: option.splits)
  next
    case old
    with walk_snoc [OF Cons.prems(4) old(3)] show ?thesis by (simp add: assign_at_node_at)
  next
    case new
    with walk_assign_at_new [OF Cons.prems(4) Cons.prems(3) new(2)] show ?thesis by simp
  qed
  then have x: "x \<noteq> - 1" and w1: "walk ?rt1 (cur @ [c]) \<noteq> None" by auto
  from w1 have rt1: "?rt1 \<noteq> Null" by (auto simp: walk_Null)
  from Cons.prems(1) n x obtain f a where
    "seq_add_loop s cs (Suc i) ?rt1 (cur @ [c]) f a e1 = (r, rt', e')"
    by (auto simp: Let_def)
  from Cons.IH [OF this Cons.prems(2) rt1 w1] show ?case by simp
qed

lemma seq_add_present:
  assumes "root st \<noteq> Null" and "fst (check_str_for_inval s e) = 0"
    and "seq_add st s e = (r, st', e')" and "r \<noteq> - 1"
  shows "root st' \<noteq> Null \<and> walk (root st') (chars_of s) \<noteq> None"
proof -
  obtain x rt e2 where l: "seq_add_loop (chars_of s) (chars_of s) 0 (root st) [] None 0 e = (x, rt, e2)"
    by (cases "seq_add_loop (chars_of s) (chars_of s) 0 (root st) [] None 0 e")
  with assms have "x = r" "st' = st\<lparr>root := rt\<rparr>"
    by (auto simp: seq_add_def check_str_for_inval_ok)
  with seq_add_loop_present [OF l] assms show ?thesis by simp
qed

lemma seq_valid_present:
  assumes "fst (seq_valid st s e) = 1"
  shows "fst (check_str_for_inval s e) = 0 \<and> root st \<noteq> Null \<and> walk (root st) (chars_of s) \<noteq> None"
proof -
  from assms have v: "fst (check_str_for_inval s e) = 0" and r: "root st \<noteq> Null"
    using scan_str_cases [of "chars_of s"]
    by (cases s; auto simp: seq_valid_def check_str_for_inval_def split: if_splits prod.splits)+
  with assms show ?thesis
    by (simp add: seq_valid_walk split: if_splits)
qed

lemma walk_prefix: "walk p cs \<noteq> None \<Longrightarrow> prefix ds cs \<Longrightarrow> walk p ds \<noteq> None"
  by (auto simp: prefix_def walk_append split: option.splits)

subsection \<open>The names given by \<open>node_change\<close>\<close>

text \<open>
  The four cases of \<open>node_change\<close> on a node, when no allocation fails: no name; the only
  name, when it is the first; the name once, when both are the same; both names, the
  first one first. With a second name only, the first condition of the source evaluates
  \<open>strcmp(n1, n2)\<close> with \<open>n1\<close> NULL.
\<close>

lemma node_change_names:
  assumes "mallocs e = []"
  shows "node_change (Node z on tw nm k) None None v e
           = Some (1, Node z on tw None v, free_name nm e)"
    and "node_change (Node z on tw nm k) (Some a) None v e
           = Some (1, Node z on tw (Some a) v, snd (malloc (free_name nm e)))"
    and "node_change (Node z on tw nm k) (Some a) (Some a) v e
           = Some (1, Node z on tw (Some a) v, snd (malloc (free_name nm e)))"
    and "a \<noteq> b \<Longrightarrow> node_change (Node z on tw nm k) (Some a) (Some b) v e
           = Some (1, Node z on tw (Some (a @ b)) v, snd (malloc (free_name nm e)))"
    and "node_change (Node z on tw nm k) None (Some b) v e = None"
  using assms
  by (simp_all add: or_else_def strcmp_def singular_name_def merge_names_def malloc_def
      free_name_def free_def)

subsection \<open>Labels of nodes\<close>

lemma label_None_iff: "label x = None \<longleftrightarrow> x = Null"
  by (cases x) auto

lemma label_Some_iff:
  "label x = Some (nm, k) \<longleftrightarrow> x \<noteq> Null \<and> abstract_class_name x = nm \<and> abstract_class x = k"
  by (cases x) auto

lemma label_set_next: "label (set_next p c v) = label p"
  by (cases p) auto

text \<open>
  Writing, through a pointer, a node that has the sons of the node it replaces changes
  the label at that path and no other label.
\<close>

lemma label_assign_at:
  assumes "walk r p \<noteq> None" and "\<forall>c. next_seq v c = next_seq (node_at r p) c"
  shows "label (node_at (assign_at r p v) q) = (if q = p then label v else label (node_at r q))"
  using assms
proof (induction p arbitrary: r q)
  case Nil
  then show ?case by (cases q) auto
next
  case (Cons c ps)
  note w = walk_Cons_Some [OF Cons.prems(1)]
  show ?case
  proof (cases q)
    case Nil
    then show ?thesis by (simp add: label_set_next)
  next
    case (Cons d qs)
    with w Cons.IH [of "next_seq r c" qs] Cons.prems(2) show ?thesis
      by (auto simp: next_seq_set_next)
  qed
qed

lemma node_change_shape:
  assumes "node_change p n1 n2 v e = Some (r, p', e')"
  shows "(p = Null \<longrightarrow> p' = Null) \<and> (p \<noteq> Null \<longrightarrow> p' \<noteq> Null \<and> abstract_class p' = v)
         \<and> (\<forall>c. next_seq p' c = next_seq p c)"
  using assms
  by (cases p)
    (auto simp: or_else_def merge_names_def singular_name_def
      split: if_splits option.splits prod.splits bool.splits)

lemma set_abstract_class_shape:
  "(p \<noteq> Null \<longrightarrow> set_abstract_class p v \<noteq> Null \<and> abstract_class (set_abstract_class p v) = v)
   \<and> (\<forall>c. next_seq (set_abstract_class p v) c = next_seq p c)"
  by (cases p) auto

text \<open>
  \<open>recur_equiv\<close> keeps every node; the class number of a node stays or becomes the new
  class number.
\<close>

lemma recur_equiv_label:
  assumes "recur_equiv p c1 c2 n n1 n2 e = Some (r, p', e')"
  shows "(label (node_at p q) = None \<longrightarrow> label (node_at p' q) = None)
       \<and> (\<forall>nm k. label (node_at p q) = Some (nm, k) \<longrightarrow>
            (\<exists>nm'. label (node_at p' q) = Some (nm', k) \<or> label (node_at p' q) = Some (nm', n)))"
  using assms
proof (induction p arbitrary: e r p' e' q)
  case Null
  then show ?case by (simp add: node_at_Null)
next
  case (Node z on tw nm k)
  from Node.prems obtain r0 z' e1 where a: "recur_equiv z c1 c2 n n1 n2 e = Some (r0, z', e1)"
    by (auto split: option.splits)
  from Node.prems a obtain r1 on' e2 where b: "recur_equiv on c1 c2 n n1 n2 e1 = Some (r1, on', e2)"
    by (auto split: option.splits)
  from Node.prems a b obtain r2 tw' e3 where d: "recur_equiv tw c1 c2 n n1 n2 e2 = Some (r2, tw', e3)"
    by (auto split: option.splits)
  have "\<exists>nm' k'. p' = Node z' on' tw' nm' k' \<and> (k' = k \<or> k' = n)"
  proof (cases "r1 = - 1 \<or> r2 = - 1 \<or> r0 = - 1")
    case True
    with Node.prems a b d show ?thesis by auto
  next
    case False
    show ?thesis
    proof (cases "k \<noteq> - 1 \<and> (k = c1 \<or> k = c2)")
      case True
      with False Node.prems a b d
      have "node_change (Node z' on' tw' nm k) n1 n2 n e3 = Some (r, p', e')" by auto
      from node_change_shape [OF this] show ?thesis
        by (cases p') (auto split: if_splits)
    next
      case no: False
      with False Node.prems a b d show ?thesis by auto
    qed
  qed
  then obtain nm' k' where p': "p' = Node z' on' tw' nm' k'" and k': "k' = k \<or> k' = n" by blast
  show ?case
  proof (cases q)
    case Nil
    with p' k' show ?thesis by auto
  next
    case (Cons c qs)
    with p' Node.IH(1) [OF a, of qs] Node.IH(2) [OF b, of qs] Node.IH(3) [OF d, of qs]
    show ?thesis
      by (auto simp: node_at_Null)
  qed
qed

lemma check_str_for_inval_cases:
  "fst (check_str_for_inval s e) = 0 \<or> check_str_for_inval s e = (- 1, e\<lparr>errno := EINVAL\<rparr>)"
  by (cases s) (auto simp: check_str_for_inval_def)

lemma in_class_walk: "in_class r p n \<Longrightarrow> walk r p \<noteq> None"
  by (auto simp: in_class_def walk_iff label_None_iff dest!: arg_cong [where f = label])

lemma in_class_not_Null: "in_class r p n \<Longrightarrow> r \<noteq> Null"
  by (auto simp: in_class_def node_at_Null)

lemma in_class_iff: "in_class r p n \<longleftrightarrow> node_at r p \<noteq> Null \<and> abstract_class (node_at r p) = n"
  by (cases "node_at r p") (auto simp: in_class_def)

lemma in_class_assign_at:
  assumes "walk r p \<noteq> None" and "node_at r p \<noteq> Null"
    and "v \<noteq> Null" and "abstract_class v = n" and "\<forall>c. next_seq v c = next_seq (node_at r p) c"
  shows "in_class (assign_at r p v) p n"
    and "in_class r q n \<Longrightarrow> in_class (assign_at r p v) q n"
    and "walk r q \<noteq> None \<Longrightarrow> walk (assign_at r p v) q \<noteq> None"
proof -
  note l = label_assign_at [OF assms(1,5)]
  from assms(3,4) have lv: "\<exists>nm. label v = Some (nm, n)" by (cases v) auto
  from l [of p] lv show "in_class (assign_at r p v) p n" by (simp add: in_class_def)
  from l [of q] lv show "in_class r q n \<Longrightarrow> in_class (assign_at r p v) q n"
    by (auto simp: in_class_def)
  show "walk (assign_at r p v) q \<noteq> None" if "walk r q \<noteq> None"
  proof (cases "q = []")
    case True
    then show ?thesis by simp
  next
    case False
    from that False have "label (node_at r q) \<noteq> None" by (simp add: walk_iff label_None_iff)
    moreover from assms(3) have "label v \<noteq> None" by (simp add: label_None_iff)
    ultimately have "label (node_at (assign_at r p v) q) \<noteq> None" using l [of q] by auto
    with False show ?thesis by (simp add: walk_iff label_None_iff)
  qed
qed

lemma seq_equiv_scan_in_class:
  assumes "seq_equiv_scan rt amount c1 c2 n n1 n2 e = Some (r, st', e')"
    and "rt \<noteq> Null"
  shows "abstract_classes_amount st' = amount \<and> root st' \<noteq> Null
       \<and> (\<forall>p. p \<noteq> [] \<and> in_class rt p n \<longrightarrow> in_class (root st') p n)"
proof -
  from assms(2) obtain z on tw nm k where rt: "rt = Node z on tw nm k" by (cases rt) auto
  from assms(1) rt obtain r0 z' e1 where a: "recur_equiv z c1 c2 n n1 n2 e = Some (r0, z', e1)"
    by (auto simp: seq_equiv_scan_def split: option.splits)
  from assms(1) rt a obtain r1 on' e2 where b: "recur_equiv on c1 c2 n n1 n2 e1 = Some (r1, on', e2)"
    by (auto simp: seq_equiv_scan_def split: option.splits)
  from assms(1) rt a b obtain r2 tw' e3 where d: "recur_equiv tw c1 c2 n n1 n2 e2 = Some (r2, tw', e3)"
    by (auto simp: seq_equiv_scan_def split: option.splits)
  from assms(1) rt a b d
  have st': "st' = \<lparr>root = Node z' on' tw' nm k, abstract_classes_amount = amount\<rparr>"
    by (auto simp: seq_equiv_scan_def)
  have "in_class (root st') p n" if "p \<noteq> []" "in_class rt p n" for p
  proof -
    from that(1) obtain c ps where p: "p = c # ps" by (cases p) auto
    have "in_class x' ps n" if "recur_equiv x c1 c2 n n1 n2 y = Some (u, x', y')" "in_class x ps n"
      for x x' y y' u
      using recur_equiv_label [OF that(1), of ps] that(2) by (auto simp: in_class_def)
    note k = this [OF a] this [OF b] this [OF d]
    from that(2) p rt have "digit c"
      by (auto simp: in_class_def digit_def node_at_Null split: if_splits)
    with that(2) p rt st' k show ?thesis
      by (auto simp: in_class_def digit_def)
  qed
  with st' show ?thesis by simp
qed

text \<open>
  After \<open>seq_equiv\<close> has chosen the new class number, both endpoints have it, however
  the call ends.
\<close>

lemma seq_equiv_classes_endpoints:
  assumes "seq_equiv_classes st p1 p2 c1 c2 e = Some (r, st', e')"
    and "walk (root st) p1 \<noteq> None" and "walk (root st) p2 \<noteq> None"
    and "root st \<noteq> Null" and "p1 \<noteq> []" and "p2 \<noteq> []"
  shows "abstract_classes_amount st' = abstract_classes_amount st + 1
       \<and> in_class (root st') p1 (abstract_classes_amount st + 1)
       \<and> in_class (root st') p2 (abstract_classes_amount st + 1)"
proof -
  let ?n = "abstract_classes_amount st + 1"
  let ?rt1 = "assign_at (root st) p1 (set_abstract_class (node_at (root st) p1) ?n)"
  let ?rt2 = "assign_at ?rt1 p2 (set_abstract_class (node_at ?rt1 p2) ?n)"
  let ?good = "\<lambda>rt. in_class rt p1 ?n \<and> in_class rt p2 ?n"
  have n1: "node_at (root st) p1 \<noteq> Null" using assms(2,5) by (simp add: walk_iff)
  have n2: "node_at (root st) p2 \<noteq> Null" using assms(3,6) by (simp add: walk_iff)
  have s1: "set_abstract_class (node_at (root st) p1) ?n \<noteq> Null"
    "abstract_class (set_abstract_class (node_at (root st) p1) ?n) = ?n"
    "\<forall>c. next_seq (set_abstract_class (node_at (root st) p1) ?n) c = next_seq (node_at (root st) p1) c"
    using set_abstract_class_shape [of "node_at (root st) p1" ?n] n1 by auto
  have c1: "in_class ?rt1 p1 ?n" by (rule in_class_assign_at(1) [OF assms(2) n1 s1])
  have w1: "walk ?rt1 p2 \<noteq> None" by (rule in_class_assign_at(3) [OF assms(2) n1 s1 assms(3)])
  have m2: "node_at ?rt1 p2 \<noteq> Null" using w1 assms(6) by (simp add: walk_iff)
  have s2: "set_abstract_class (node_at ?rt1 p2) ?n \<noteq> Null"
    "abstract_class (set_abstract_class (node_at ?rt1 p2) ?n) = ?n"
    "\<forall>c. next_seq (set_abstract_class (node_at ?rt1 p2) ?n) c = next_seq (node_at ?rt1 p2) c"
    using set_abstract_class_shape [of "node_at ?rt1 p2" ?n] m2 by auto
  have g2: "?good ?rt2"
    using in_class_assign_at(1) [OF w1 m2 s2] in_class_assign_at(2) [OF w1 m2 s2 c1] by simp
  have step: "?good (assign_at rt p nd)"
    if "?good rt" "p = p1 \<or> p = p2" "node_change (node_at rt p) a b ?n x = Some (y, nd, x')"
    for rt p nd a b x y x'
  proof -
    from that(1,2) have i: "in_class rt p ?n" by auto
    then have w: "walk rt p \<noteq> None" and nn: "node_at rt p \<noteq> Null"
      by (auto simp: in_class_walk in_class_iff)
    from node_change_shape [OF that(3)] nn
    have s: "nd \<noteq> Null" "abstract_class nd = ?n" "\<forall>c. next_seq nd c = next_seq (node_at rt p) c"
      by auto
    from in_class_assign_at(2) [OF w nn s] that(1) show ?thesis by auto
  qed
  have nonroot: "rt \<noteq> Null" if "?good rt" for rt
    using that in_class_not_Null by blast
  obtain g1 name_1 e1 where cp1: "copy_name (abstract_class_name (node_at ?rt2 p1)) e = (g1, name_1, e1)"
    by (cases "copy_name (abstract_class_name (node_at ?rt2 p1)) e")
  obtain g2' name_2 e2 where cp2: "copy_name (abstract_class_name (node_at ?rt2 p2)) e1 = (g2', name_2, e2)"
    by (cases "copy_name (abstract_class_name (node_at ?rt2 p2)) e1")
  show ?thesis
  proof (cases "g1 \<and> g2'")
    case False
    with assms(1) cp1 cp2 g2 show ?thesis
      by (auto simp: seq_equiv_classes_def Let_def split: if_splits)
  next
    case True
    with assms(1) cp1 cp2 obtain r1 nd1 e3 where
      nc1: "node_change (node_at ?rt2 p1) name_1 name_2 ?n e2 = Some (r1, nd1, e3)"
      by (auto simp: seq_equiv_classes_def Let_def split: option.splits)
    let ?rt3 = "assign_at ?rt2 p1 nd1"
    have g3: "?good ?rt3" by (rule step [OF g2 _ nc1]) simp
    show ?thesis
    proof (cases "r1 = - 1")
      case r1: True
      with assms(1) cp1 cp2 True nc1 g3 show ?thesis
        by (auto simp: seq_equiv_classes_def Let_def)
    next
      case r1: False
      with assms(1) cp1 cp2 True nc1 obtain r2 nd2 e4 where
        nc2: "node_change (node_at ?rt3 p2) name_1 name_2 ?n e3 = Some (r2, nd2, e4)"
        by (auto simp: seq_equiv_classes_def Let_def split: option.splits)
      let ?rt4 = "assign_at ?rt3 p2 nd2"
      have g4: "?good ?rt4" by (rule step [OF g3 _ nc2]) simp
      show ?thesis
      proof (cases "r2 = - 1")
        case r2: True
        with assms(1) cp1 cp2 True nc1 r1 nc2 g4 show ?thesis
          by (auto simp: seq_equiv_classes_def Let_def)
      next
        case r2: False
        with assms(1) cp1 cp2 True nc1 r1 nc2
        have "seq_equiv_scan ?rt4 ?n c1 c2 ?n name_1 name_2 e4 = Some (r, st', e')"
          by (auto simp: seq_equiv_classes_def Let_def)
        from seq_equiv_scan_in_class [OF this nonroot [OF g4]] g4 assms(5,6) show ?thesis
          by auto
      qed
    qed
  qed
qed

subsection \<open>Renaming when no allocation fails\<close>

lemma free_name_fields: "mallocs (free_name nm e) = mallocs e" "errno (free_name nm e) = errno e"
  by (simp_all add: free_name_def free_def)

lemma malloc_succeeds:
  assumes "\<forall>b \<in> set (mallocs e). b"
  shows "\<exists>e'. malloc e = (True, e') \<and> (\<forall>b \<in> set (mallocs e'). b) \<and> errno e' = errno e"
  using assms by (cases "mallocs e") (auto simp: malloc_def)

lemma recur_seq_name_label:
  assumes "recur_seq_name p n c e = (r, p', e')" and "\<forall>b \<in> set (mallocs e). b"
  shows "(\<forall>b \<in> set (mallocs e'). b) \<and> errno e' = errno e \<and> (p \<noteq> Null \<longrightarrow> r = 1)
       \<and> (\<forall>q. label (node_at p' q)
             = (case label (node_at p q) of
                  None \<Rightarrow> None
                | Some (nm, k) \<Rightarrow> Some (if k = c then Some n else nm, k)))"
  using assms
proof (induction p arbitrary: e r p' e')
  case Null
  then show ?case by (simp add: node_at_Null)
next
  case (Node z on tw nm k)
  obtain r0 z' e1 where a: "recur_seq_name z n c e = (r0, z', e1)" by (cases "recur_seq_name z n c e")
  obtain r1 on' e2 where b: "recur_seq_name on n c e1 = (r1, on', e2)" by (cases "recur_seq_name on n c e1")
  obtain r2 tw' e3 where d: "recur_seq_name tw n c e2 = (r2, tw', e3)" by (cases "recur_seq_name tw n c e2")
  note ia = Node.IH(1) [OF a Node.prems(2)]
  note ib = Node.IH(2) [OF b ia [THEN conjunct1]]
  note id = Node.IH(3) [OF d ib [THEN conjunct1]]
  from id have "\<forall>b \<in> set (mallocs e3). b" by (rule conjunct1)
  then have g3: "\<forall>b \<in> set (mallocs (free_name nm e3)). b" by (simp add: free_name_fields)
  from malloc_succeeds [OF g3] obtain e4 where m: "malloc (free_name nm e3) = (True, e4)"
    "\<forall>b \<in> set (mallocs e4). b" "errno e4 = errno e3" by (auto simp: free_name_fields)
  have nr: "r0 \<noteq> - 1" "r1 \<noteq> - 1" "r2 \<noteq> - 1"
    using recur_seq_name_result a b d by blast+
  from Node.prems(1) a b d nr m
  have res: "r = 1" "p' = Node z' on' tw' (if k = c then Some n else nm) k"
    "e' = (if k = c then e4 else e3)"
    by (auto split: if_splits)
  have "label (node_at p' q)
      = (case label (node_at (Node z on tw nm k) q) of None \<Rightarrow> None
         | Some (nm, k) \<Rightarrow> Some (if k = c then Some n else nm, k))" for q
  proof (cases q)
    case Nil
    with res show ?thesis by simp
  next
    case (Cons x xs)
    with res ia ib id show ?thesis by (simp add: node_at_Null)
  qed
  with res m ia ib id show ?case by auto
qed

subsection \<open>Class numbers and the counter\<close>

lemma classes_in_next_seq: "set (classes_in (next_seq p c)) \<subseteq> set (classes_in p)"
  by (cases p) auto

lemma classes_in_node_at: "set (classes_in (node_at p cs)) \<subseteq> set (classes_in p)"
proof (induction cs arbitrary: p)
  case Nil
  then show ?case by simp
next
  case (Cons c cs)
  from Cons.IH [of "next_seq p c"] classes_in_next_seq [of p c] show ?case by auto
qed

lemma classes_in_set_next:
  "set (classes_in (set_next p c v)) \<subseteq> set (classes_in p) \<union> set (classes_in v)"
  by (cases p) auto

lemma classes_in_assign_at:
  "set (classes_in (assign_at p cs v)) \<subseteq> set (classes_in p) \<union> set (classes_in v)"
proof (induction cs arbitrary: p)
  case Nil
  then show ?case by simp
next
  case (Cons c cs)
  from Cons.IH [of "next_seq p c"] classes_in_next_seq [of p c]
    classes_in_set_next [of p c "assign_at (next_seq p c) cs v"]
  show ?case by auto
qed

lemma classes_in_set_abstract_class:
  "set (classes_in (set_abstract_class p n)) \<subseteq> insert n (set (classes_in p))"
  by (cases p) auto

lemma classes_in_set_abstract_class_name:
  "classes_in (set_abstract_class_name p n) = classes_in p"
  by (cases p) auto

lemma classes_in_node_change:
  assumes "node_change p n1 n2 n e = Some (r, p', e')"
  shows "set (classes_in p') \<subseteq> insert n (set (classes_in p))"
  using assms
  by (cases p)
    (auto simp: or_else_def merge_names_def singular_name_def
      split: if_splits option.splits prod.splits bool.splits)

lemma classes_in_recur_equiv:
  assumes "recur_equiv p c1 c2 n n1 n2 e = Some (r, p', e')"
  shows "set (classes_in p') \<subseteq> insert n (set (classes_in p))"
  using assms
proof (induction p arbitrary: e r p' e')
  case Null
  then show ?case by simp
next
  case (Node z on tw nm k)
  from Node.prems obtain r0 z' e1 where a: "recur_equiv z c1 c2 n n1 n2 e = Some (r0, z', e1)"
    by (auto split: option.splits)
  from Node.prems a obtain r1 on' e2 where b: "recur_equiv on c1 c2 n n1 n2 e1 = Some (r1, on', e2)"
    by (auto split: option.splits)
  from Node.prems a b obtain r2 tw' e3 where d: "recur_equiv tw c1 c2 n n1 n2 e2 = Some (r2, tw', e3)"
    by (auto split: option.splits)
  note i = Node.IH(1) [OF a] Node.IH(2) [OF b] Node.IH(3) [OF d]
  have "set (classes_in p') \<subseteq> insert n (set (classes_in (Node z' on' tw' nm k)))"
  proof (cases "\<not> (r1 = - 1 \<or> r2 = - 1 \<or> r0 = - 1) \<and> k \<noteq> - 1 \<and> (k = c1 \<or> k = c2)")
    case True
    with Node.prems a b d
    have "node_change (Node z' on' tw' nm k) n1 n2 n e3 = Some (r, p', e')" by auto
    from classes_in_node_change [OF this] show ?thesis .
  next
    case False
    with Node.prems a b d have "p' = Node z' on' tw' nm k" by (auto split: if_splits)
    then show ?thesis by auto
  qed
  with i show ?case by auto
qed

lemma same_top_refl: "same_top a a"
  by (simp add: same_top_def)

lemma same_top_trans: "same_top a b \<Longrightarrow> same_top b c \<Longrightarrow> same_top a c"
  by (auto simp: same_top_def)

lemma same_top_set_next: "same_top p (set_next p c v)"
  by (cases p) (auto simp: same_top_def)

lemma same_top_assign_at: "cs \<noteq> [] \<Longrightarrow> same_top p (assign_at p cs v)"
  by (cases cs) (auto simp: same_top_set_next)

lemma same_top_assign_at_node:
  "same_top (node_at p cs) v \<Longrightarrow> same_top p (assign_at p cs v)"
  by (cases cs) (auto simp: same_top_set_next)

lemma recur_seq_name_classes:
  assumes "recur_seq_name p n c e = (r, p', e')"
  shows "classes_in p' = classes_in p \<and> same_top p p'"
  using assms
proof (induction p arbitrary: e r p' e')
  case Null
  then show ?case by (simp add: same_top_def)
next
  case (Node z on tw nm k)
  obtain r0 z' e1 where a: "recur_seq_name z n c e = (r0, z', e1)" by (cases "recur_seq_name z n c e")
  obtain r1 on' e2 where b: "recur_seq_name on n c e1 = (r1, on', e2)" by (cases "recur_seq_name on n c e1")
  obtain r2 tw' e3 where d: "recur_seq_name tw n c e2 = (r2, tw', e3)" by (cases "recur_seq_name tw n c e2")
  from Node.prems a b d have "\<exists>nm'. p' = Node z' on' tw' nm' k"
    by (auto split: if_splits prod.splits)
  with Node.IH(1) [OF a] Node.IH(2) [OF b] Node.IH(3) [OF d] show ?case
    by (auto simp: same_top_def)
qed

lemma new_seq_node_classes:
  assumes "new_seq_node p c e = (r, nd, e')"
  shows "set (classes_in nd) \<subseteq> insert (- 1) (set (classes_in p)) \<and> same_top p nd"
  using new_seq_node_cases [OF assms] classes_in_set_next [of p c "Node Null Null Null None (- 1)"]
  by (auto simp: same_top_set_next same_top_refl)

lemma seq_add_loop_classes:
  assumes "seq_add_loop s cs i rt cur first added e = (r, rt', e')"
  shows "set (classes_in rt') \<subseteq> insert (- 1) (set (classes_in rt)) \<and> same_top rt rt'"
  using assms
proof (induction cs arbitrary: i rt cur first added e)
  case Nil
  then show ?case by (auto simp: same_top_refl)
next
  case (Cons c cs)
  obtain x nd e1 where n: "new_seq_node (node_at rt cur) c e = (x, nd, e1)"
    by (cases "new_seq_node (node_at rt cur) c e")
  let ?rt1 = "assign_at rt cur nd"
  from new_seq_node_classes [OF n] classes_in_node_at [of rt cur] classes_in_assign_at [of rt cur nd]
  have c1: "set (classes_in ?rt1) \<subseteq> insert (- 1) (set (classes_in rt))" by auto
  from new_seq_node_classes [OF n] have t1: "same_top rt ?rt1"
    by (auto intro: same_top_assign_at_node)
  show ?case
  proof (cases "x = - 1")
    case True
    have "set (classes_in rt') \<subseteq> set (classes_in ?rt1) \<and> same_top ?rt1 rt'"
    proof (cases "if first = None \<and> x = 1 then Some (cur, i) else first")
      case None
      with Cons.prems n True show ?thesis by (auto simp: Let_def same_top_refl)
    next
      case (Some a)
      obtain stl fi where a: "a = (stl, fi)" by (cases a)
      from Cons.prems n True Some a
      have "rt' = assign_at ?rt1 stl (set_next (node_at ?rt1 stl) (s ! fi) Null)"
        by (auto simp: Let_def)
      moreover have "same_top (node_at ?rt1 stl) (set_next (node_at ?rt1 stl) (s ! fi) Null)"
        by (rule same_top_set_next)
      ultimately show ?thesis
        using classes_in_assign_at [of ?rt1 stl "set_next (node_at ?rt1 stl) (s ! fi) Null"]
          classes_in_set_next [of "node_at ?rt1 stl" "s ! fi" Null] classes_in_node_at [of ?rt1 stl]
        by (auto intro: same_top_assign_at_node)
    qed
    with c1 t1 show ?thesis by (auto intro: same_top_trans)
  next
    case False
    with Cons.prems n obtain f a where
      "seq_add_loop s cs (Suc i) ?rt1 (cur @ [c]) f a e1 = (r, rt', e')"
      by (auto simp: Let_def)
    from Cons.IH [OF this] c1 t1 show ?thesis by (auto intro: same_top_trans)
  qed
qed

lemma grows_trans: "grows n a b \<Longrightarrow> grows n b c \<Longrightarrow> grows n a c"
  by (auto simp: grows_def intro: same_top_trans)

lemma grows_assign_at:
  assumes "p \<noteq> []" and "set (classes_in v) \<subseteq> insert n (set (classes_in (node_at r p)))"
  shows "grows n r (assign_at r p v)"
  using assms classes_in_assign_at [of r p v] classes_in_node_at [of r p]
  by (auto simp: grows_def same_top_assign_at)

lemma grows_scan:
  assumes "seq_equiv_scan rt amount c1 c2 n n1 n2 e = Some (r, st', e')" and "rt \<noteq> Null"
  shows "grows n rt (root st') \<and> abstract_classes_amount st' = amount"
proof -
  from assms(2) obtain z on tw nm k where rt: "rt = Node z on tw nm k" by (cases rt) auto
  from assms(1) rt obtain r0 z' e1 where a: "recur_equiv z c1 c2 n n1 n2 e = Some (r0, z', e1)"
    by (auto simp: seq_equiv_scan_def split: option.splits)
  from assms(1) rt a obtain r1 on' e2 where b: "recur_equiv on c1 c2 n n1 n2 e1 = Some (r1, on', e2)"
    by (auto simp: seq_equiv_scan_def split: option.splits)
  from assms(1) rt a b obtain r2 tw' e3 where d: "recur_equiv tw c1 c2 n n1 n2 e2 = Some (r2, tw', e3)"
    by (auto simp: seq_equiv_scan_def split: option.splits)
  from assms(1) rt a b d
  have st': "st' = \<lparr>root = Node z' on' tw' nm k, abstract_classes_amount = amount\<rparr>"
    by (auto simp: seq_equiv_scan_def)
  with rt classes_in_recur_equiv [OF a] classes_in_recur_equiv [OF b] classes_in_recur_equiv [OF d]
  show ?thesis by (auto simp: grows_def same_top_def)
qed

lemma seq_equiv_classes_grows:
  assumes "seq_equiv_classes st p1 p2 c1 c2 e = Some (r, st', e')"
    and "root st \<noteq> Null" and "p1 \<noteq> []" and "p2 \<noteq> []"
  shows "abstract_classes_amount st' = abstract_classes_amount st + 1
       \<and> grows (abstract_classes_amount st + 1) (root st) (root st')"
proof -
  let ?n = "abstract_classes_amount st + 1"
  let ?rt1 = "assign_at (root st) p1 (set_abstract_class (node_at (root st) p1) ?n)"
  let ?rt2 = "assign_at ?rt1 p2 (set_abstract_class (node_at ?rt1 p2) ?n)"
  have g1: "grows ?n (root st) ?rt1"
    by (rule grows_assign_at [OF assms(3) classes_in_set_abstract_class])
  have "grows ?n ?rt1 ?rt2"
    by (rule grows_assign_at [OF assms(4) classes_in_set_abstract_class])
  with g1 have g2: "grows ?n (root st) ?rt2" by (rule grows_trans)
  have step: "grows ?n (root st) (assign_at rt p nd)"
    if "grows ?n (root st) rt" "p \<noteq> []" "node_change (node_at rt p) a b ?n x = Some (y, nd, x')"
    for rt p nd a b x y x'
    using that(1) grows_assign_at [OF that(2) classes_in_node_change [OF that(3)]]
    by (rule grows_trans)
  obtain g1' name_1 e1 where cp1: "copy_name (abstract_class_name (node_at ?rt2 p1)) e = (g1', name_1, e1)"
    by (cases "copy_name (abstract_class_name (node_at ?rt2 p1)) e")
  obtain g2' name_2 e2 where cp2: "copy_name (abstract_class_name (node_at ?rt2 p2)) e1 = (g2', name_2, e2)"
    by (cases "copy_name (abstract_class_name (node_at ?rt2 p2)) e1")
  show ?thesis
  proof (cases "g1' \<and> g2'")
    case False
    with assms(1) cp1 cp2 g2 show ?thesis
      by (auto simp: seq_equiv_classes_def Let_def split: if_splits)
  next
    case True
    with assms(1) cp1 cp2 obtain r1 nd1 e3 where
      nc1: "node_change (node_at ?rt2 p1) name_1 name_2 ?n e2 = Some (r1, nd1, e3)"
      by (auto simp: seq_equiv_classes_def Let_def split: option.splits)
    let ?rt3 = "assign_at ?rt2 p1 nd1"
    have g3: "grows ?n (root st) ?rt3" by (rule step [OF g2 assms(3) nc1])
    show ?thesis
    proof (cases "r1 = - 1")
      case r1: True
      with assms(1) cp1 cp2 True nc1 g3 show ?thesis
        by (auto simp: seq_equiv_classes_def Let_def)
    next
      case r1: False
      with assms(1) cp1 cp2 True nc1 obtain r2 nd2 e4 where
        nc2: "node_change (node_at ?rt3 p2) name_1 name_2 ?n e3 = Some (r2, nd2, e4)"
        by (auto simp: seq_equiv_classes_def Let_def split: option.splits)
      let ?rt4 = "assign_at ?rt3 p2 nd2"
      have g4: "grows ?n (root st) ?rt4" by (rule step [OF g3 assms(4) nc2])
      show ?thesis
      proof (cases "r2 = - 1")
        case r2: True
        with assms(1) cp1 cp2 True nc1 r1 nc2 g4 show ?thesis
          by (auto simp: seq_equiv_classes_def Let_def)
      next
        case r2: False
        with assms(1) cp1 cp2 True nc1 r1 nc2
        have sc: "seq_equiv_scan ?rt4 ?n c1 c2 ?n name_1 name_2 e4 = Some (r, st', e')"
          by (auto simp: seq_equiv_classes_def Let_def)
        from g4 assms(2) have "?rt4 \<noteq> Null" by (auto simp: grows_def same_top_def)
        from grows_scan [OF sc this] g4 show ?thesis by (auto intro: grows_trans)
      qed
    qed
  qed
qed

text \<open>Every call keeps the invariant of the store.\<close>

lemma in_class_classes_in: "in_class r p n \<Longrightarrow> n \<in> set (classes_in r)"
proof -
  assume "in_class r p n"
  then have "n \<in> set (classes_in (node_at r p))"
    by (cases "node_at r p") (auto simp: in_class_def)
  with classes_in_node_at [of r p] show ?thesis by blast
qed

lemma store_inv_grows:
  assumes "store_inv st" and "grows n (root st) (root st')"
    and "n = - 1 \<and> abstract_classes_amount st' = abstract_classes_amount st
         \<or> n = abstract_classes_amount st + 1 \<and> abstract_classes_amount st' = n
             \<and> n \<in> set (classes_in (root st'))"
  shows "store_inv st' \<and> mints st st'"
proof -
  from assms(1) have m: "- 1 \<in> set (classes_in (root st))"
    by (cases "root st") (auto simp: store_inv_def)
  from assms(2) have sub: "set (classes_in (root st')) \<subseteq> insert n (set (classes_in (root st)))"
    by (simp add: grows_def)
  from assms(1,2) have top: "root st' \<noteq> Null" "abstract_class (root st') = - 1"
    by (auto simp: store_inv_def grows_def same_top_def)
  from assms(1) have old: "k = - 1 \<or> (1 \<le> k \<and> k \<le> abstract_classes_amount st)"
    if "k \<in> set (classes_in (root st))" for k
    using that by (auto simp: store_inv_def)
  from assms(1) have a: "0 \<le> abstract_classes_amount st" by (simp add: store_inv_def)
  have new: "k = - 1 \<or> (1 \<le> k \<and> k \<le> abstract_classes_amount st')"
    if "k \<in> set (classes_in (root st'))" for k
  proof -
    from that sub have "k = n \<or> k \<in> set (classes_in (root st))" by blast
    with old [of k] assms(3) a show ?thesis by auto
  qed
  have "mints st st'"
  proof (cases "n = - 1")
    case True
    with sub m have "set (classes_in (root st')) \<subseteq> set (classes_in (root st))" by auto
    with True assms(3) a show ?thesis by (auto simp: mints_def)
  next
    case False
    with assms(3) sub show ?thesis by (auto simp: mints_def)
  qed
  with top new a assms(3) show ?thesis by (auto simp: store_inv_def)
qed

lemma store_inv_same: "store_inv st \<Longrightarrow> store_inv st \<and> mints st st"
  by (simp add: mints_def)

lemma seq_add_step:
  assumes "store_inv st" and "seq_add st s e = (r, st', e')"
  shows "store_inv st' \<and> mints st st'"
proof (cases "st' = st")
  case True
  with assms(1) show ?thesis by (simp add: store_inv_same)
next
  case False
  with assms(2) obtain rt x e1 e2 where
    l: "seq_add_loop (chars_of s) (chars_of s) 0 (root st) [] None 0 e1 = (x, rt, e2)"
    and st': "st' = st\<lparr>root := rt\<rparr>"
    by (auto simp: seq_add_def split: if_splits prod.splits)
  from seq_add_loop_classes [OF l] st' have "grows (- 1) (root st) (root st')"
    by (simp add: grows_def)
  from store_inv_grows [OF assms(1) this] st' show ?thesis by simp
qed

lemma seq_remove_step:
  assumes "store_inv st" and "seq_remove st s e = (r, st', e')"
  shows "store_inv st' \<and> mints st st'"
proof (cases "st' = st")
  case True
  with assms(1) show ?thesis by (simp add: store_inv_same)
next
  case False
  let ?p = "butlast (chars_of s)"
  let ?v = "set_next (node_at (root st) ?p) (last (chars_of s)) Null"
  from False assms(2) have st': "st' = st\<lparr>root := assign_at (root st) ?p ?v\<rparr>"
    by (auto simp: seq_remove_def split: if_splits prod.splits option.splits)
  have "grows (- 1) (root st) (assign_at (root st) ?p ?v)"
    using classes_in_assign_at [of "root st" ?p ?v] classes_in_node_at [of "root st" ?p]
      classes_in_set_next [of "node_at (root st) ?p" "last (chars_of s)" Null]
      same_top_assign_at_node [OF same_top_set_next, of "root st" ?p "last (chars_of s)" Null]
    by (auto simp: grows_def)
  with st' have "grows (- 1) (root st) (root st')" by simp
  from store_inv_grows [OF assms(1) this] st' show ?thesis by simp
qed

lemma seq_set_name_step:
  assumes "store_inv st" and "seq_set_name st s n e = Some (r, st', e')"
  shows "store_inv st' \<and> mints st st'"
proof (cases "st' = st")
  case True
  with assms(1) show ?thesis by (simp add: store_inv_same)
next
  case False
  from assms(1) have r: "root st \<noteq> Null" by (simp add: store_inv_def)
  from False assms(2) r check_str_for_inval_cases [of s e]
  have k: "fst (check_str_for_inval s e) = 0"
    by (auto simp: seq_set_name_def split: if_splits)
  then have ne: "chars_of s \<noteq> []" by (rule check_str_for_inval_ok)
  from False assms(2) r k obtain a name where n: "n = Ptr a name" "name \<noteq> []"
    by (cases n) (auto simp: seq_set_name_def check_str_for_inval_ok split: if_splits)
  from False assms(2) r k n obtain cur where cur: "walk (root st) (chars_of s) = Some cur"
    by (auto simp: seq_set_name_def check_str_for_inval_ok split: if_splits option.splits)
  note cn = walk_node_at [OF cur]
  let ?p = "chars_of s"
  let ?am = "abstract_classes_amount st"
  show ?thesis
  proof (cases "abstract_class cur = - 1")
    case True
    obtain got e2 where m: "malloc e = (got, e2)" by (cases "malloc e")
    show ?thesis
    proof (cases got)
      case False
      with assms(2) r k n cur True m
      have st': "st' = st\<lparr>root := assign_at (root st) ?p (set_abstract_class_name cur None)\<rparr>"
        by (auto simp: seq_set_name_def check_str_for_inval_ok)
      have "grows (- 1) (root st) (assign_at (root st) ?p (set_abstract_class_name cur None))"
        by (rule grows_assign_at [OF ne]) (simp add: classes_in_set_abstract_class_name cn subset_insertI)
      with st' have "grows (- 1) (root st) (root st')" by simp
      from store_inv_grows [OF assms(1) this] st' show ?thesis by simp
    next
      case got: True
      let ?v = "set_abstract_class (set_abstract_class_name cur (Some name)) (?am + 1)"
      from assms(2) r k n cur True m got
      have st': "st' = \<lparr>root = assign_at (root st) ?p ?v, abstract_classes_amount = ?am + 1\<rparr>"
        by (auto simp: seq_set_name_def check_str_for_inval_ok split: if_splits)
      have "grows (?am + 1) (root st) (assign_at (root st) ?p ?v)"
        using classes_in_set_abstract_class [of "set_abstract_class_name cur (Some name)" "?am + 1"]
        by (intro grows_assign_at [OF ne]) (simp add: classes_in_set_abstract_class_name cn)
      with st' have g: "grows (?am + 1) (root st) (root st')" by simp
      from cur have w: "walk (root st) ?p \<noteq> None" by simp
      from w ne have nn: "node_at (root st) ?p \<noteq> Null" by (simp add: walk_iff)
      from nn cn have "cur \<noteq> Null" by simp
      then obtain z on tw nm k where cu: "cur = Node z on tw nm k" by (cases cur) auto
      from cu have v1: "?v \<noteq> Null" by simp
      from cu have v2: "abstract_class ?v = ?am + 1" by simp
      from cu have "\<forall>c. next_seq ?v c = next_seq cur c" by simp
      with cn have v3: "\<forall>c. next_seq ?v c = next_seq (node_at (root st) ?p) c" by simp
      have "in_class (assign_at (root st) ?p ?v) ?p (?am + 1)"
        by (rule in_class_assign_at(1) [OF w nn v1 v2 v3])
      then have "?am + 1 \<in> set (classes_in (assign_at (root st) ?p ?v))"
        by (rule in_class_classes_in)
      with st' have m: "?am + 1 \<in> set (classes_in (root st'))" by simp
      from st' have "abstract_classes_amount st' = ?am + 1" by simp
      with store_inv_grows [OF assms(1) g] m show ?thesis by blast
    qed
  next
    case c: False
    with False assms(2) r k n cur obtain res rt e2 where
      rs: "recur_seq_name (root st) name (abstract_class cur) e = (res, rt, e2)"
      and st': "st' = st\<lparr>root := rt\<rparr>"
      by (auto simp: seq_set_name_def check_str_for_inval_ok split: if_splits prod.splits)
    from recur_seq_name_classes [OF rs] st' have "grows (- 1) (root st) (root st')"
      by (auto simp: grows_def)
    from store_inv_grows [OF assms(1) this] st' show ?thesis by simp
  qed
qed

lemma seq_equiv_step:
  assumes "store_inv st" and "seq_equiv st s1 s2 e = Some (r, st', e')"
  shows "store_inv st' \<and> mints st st'"
proof (cases "st' = st")
  case True
  with assms(1) show ?thesis by (simp add: store_inv_same)
next
  case False
  from assms(1) have r: "root st \<noteq> Null" by (simp add: store_inv_def)
  from False assms(2) r have s: "s1 \<noteq> Null_ptr" "s2 \<noteq> Null_ptr"
    by (auto simp: seq_equiv_def split: if_splits)
  from False assms(2) r s check_str_for_inval_cases [of s1 e]
  have k1: "fst (check_str_for_inval s1 e) = 0"
    by (auto simp: seq_equiv_def split: if_splits)
  from False assms(2) r s k1 check_str_for_inval_cases [of s2 e]
  have k2: "fst (check_str_for_inval s2 e) = 0"
    by (auto simp: seq_equiv_def check_str_for_inval_ok split: if_splits)
  from False assms(2) r s k1 k2 obtain c1 c2 where
    c: "seq_equiv_classes st (chars_of s1) (chars_of s2) c1 c2 e = Some (r, st', e')"
    by (auto simp: seq_equiv_def check_str_for_inval_ok split: if_splits option.splits)
  have ne: "chars_of s1 \<noteq> []" "chars_of s2 \<noteq> []"
    using k1 k2 by (auto dest: check_str_for_inval_ok(3))
  from False assms(2) r s k1 k2 c have w: "walk (root st) (chars_of s1) \<noteq> None"
    "walk (root st) (chars_of s2) \<noteq> None"
    by (auto simp: seq_equiv_def check_str_for_inval_ok split: if_splits option.splits)
  from seq_equiv_classes_endpoints [OF c w r ne]
  have "in_class (root st') (chars_of s1) (abstract_classes_amount st + 1)" by blast
  then have "abstract_classes_amount st + 1 \<in> set (classes_in (root st'))"
    by (rule in_class_classes_in)
  with seq_equiv_classes_grows [OF c r ne]
    store_inv_grows [OF assms(1), of "abstract_classes_amount st + 1" st']
  show ?thesis by auto
qed

lemma call_step_inv:
  assumes "store_inv st" and "call_step c st e = Some (st', e')"
  shows "store_inv st' \<and> mints st st'"
proof (cases c)
  case (Add s)
  with assms seq_add_step [OF assms(1), of s e] show ?thesis by (auto split: prod.splits)
next
  case (Remove s)
  with assms seq_remove_step [OF assms(1), of s e] show ?thesis by (auto split: prod.splits)
next
  case (Valid s)
  with assms show ?thesis by (auto simp: store_inv_same split: prod.splits)
next
  case (Set_name s n)
  with assms seq_set_name_step [OF assms(1), of s n e] show ?thesis
    by (auto split: prod.splits option.splits)
next
  case (Get_name s)
  with assms show ?thesis by (auto simp: store_inv_same split: prod.splits)
next
  case (Equiv s1 s2)
  with assms seq_equiv_step [OF assms(1), of s1 s2 e] show ?thesis
    by (auto split: prod.splits option.splits)
qed

lemma run_hd: "run cs st e = Some h \<Longrightarrow> \<exists>t. h = st # t"
  by (cases cs) (auto split: option.splits)

lemma run_steps:
  assumes "store_inv st" and "run cs st e = Some h" and "Suc j < length h"
  shows "store_inv (h ! j) \<and> store_inv (h ! Suc j) \<and> mints (h ! j) (h ! Suc j)"
  using assms
proof (induction cs arbitrary: st e h j)
  case Nil
  then show ?case by auto
next
  case (Cons c cs)
  from Cons.prems(2) obtain st' e' h' where
    s: "call_step c st e = Some (st', e')" and r: "run cs st' e' = Some h'" and h: "h = st # h'"
    by (auto split: option.splits)
  from run_hd [OF r] obtain t where h': "h' = st' # t" by blast
  note i = call_step_inv [OF Cons.prems(1) s]
  show ?case
  proof (cases j)
    case 0
    with h h' i Cons.prems(1) show ?thesis by simp
  next
    case (Suc j')
    with Cons.prems(3) h have "Suc j' < length h'" by simp
    from Cons.IH [OF _ r this] i Suc h show ?thesis by simp
  qed
qed

lemma run_amount_mono:
  assumes "store_inv st" and "run cs st e = Some h" and "j < length h" and "i \<le> j"
  shows "abstract_classes_amount (h ! i) \<le> abstract_classes_amount (h ! j) \<and> store_inv (h ! i)"
  using assms(3,4)
proof (induction j)
  case 0
  with run_hd [OF assms(2)] assms(1) show ?case by auto
next
  case (Suc j)
  note s = run_steps [OF assms(1,2) Suc.prems(1)]
  show ?case
  proof (cases "i = Suc j")
    case True
    with s show ?thesis by simp
  next
    case False
    with Suc have "abstract_classes_amount (h ! i) \<le> abstract_classes_amount (h ! j) \<and> store_inv (h ! i)"
      by simp
    with s show ?thesis by (auto simp: mints_def)
  qed
qed

lemma seq_new_inv: "seq_new e = (Some st0, e0) \<Longrightarrow> store_inv st0 \<and> abstract_classes_amount st0 = 0"
  by (auto simp: seq_new_def store_inv_def split: prod.splits if_splits)

section \<open>The claims\<close>

text \<open>
  Claim C1 (names after a merge). The claim: after \<open>seq_equiv\<close> on two present sequences
  of different classes every member of the merged class has no name when neither
  endpoint had one, the one name when exactly one endpoint had a name, that name once
  when both had the same name, and the name of \<open>s1\<close> followed by the name of \<open>s2\<close>
  otherwise. The code does not do this when only \<open>s2\<close> has a name: in \<open>store_a\<close> the
  sequence 1 has no name and the sequence 0 has the name A, and \<open>seq_equiv\<close> on 1 and 0
  passes NULL to \<open>strcmp\<close> in \<open>node_change\<close>, which is undefined behaviour; with the
  arguments in the other order both sequences get the name A.
\<close>

theorem seq_equiv_only_second_named:
  "seq_equiv store_a (Ptr 2 ''1'') (Ptr 1 ''0'') \<lparr>errno = 0, mallocs = [], allocated = 5\<rparr> = None
   \<and> seq_equiv store_a (Ptr 1 ''0'') (Ptr 2 ''1'') \<lparr>errno = 0, mallocs = [], allocated = 5\<rparr>
       = Some (1,
           \<lparr>root = Node (Node Null Null Null (Some ''A'') 2) (Node Null Null Null (Some ''A'') 2)
                    Null None (- 1),
            abstract_classes_amount = 2\<rparr>,
           \<lparr>errno = 0, mallocs = [], allocated = 6\<rparr>)"
  by code_simp

text \<open>
  Claim C2 (rollback of \<open>seq_add\<close>). For every store and every valid sequence, when
  \<open>seq_add\<close> returns \<open>-1\<close> the store is the store before the call (the nodes created by
  the call are gone, every other node is as it was), \<open>errno\<close> is \<open>ENOMEM\<close>, as many
  blocks are allocated as before the call (the nodes created were freed), and
  \<open>seq_valid\<close> answers as before the call for every sequence.
\<close>

theorem seq_add_rollback:
  assumes "root st \<noteq> Null" and "fst (check_str_for_inval s e) = 0"
    and "seq_add st s e = (- 1, st', e')"
  shows "st' = st \<and> errno e' = ENOMEM \<and> allocated e' = allocated e
       \<and> (\<forall>t e1. seq_valid st' t e1 = seq_valid st t e1)"
proof -
  obtain r rt e2 where l: "seq_add_loop (chars_of s) (chars_of s) 0 (root st) [] None 0 e = (r, rt, e2)"
    by (cases "seq_add_loop (chars_of s) (chars_of s) 0 (root st) [] None 0 e")
  with assms have "r = - 1" "st' = st\<lparr>root := rt\<rparr>" "e' = e2"
    by (auto simp: seq_add_def check_str_for_inval_ok)
  moreover have "rollback_inv (chars_of s) (root st) (root st) [] 0 None"
    using assms(1) by (simp add: rollback_inv_def)
  moreover have "alloc_inv (chars_of s) (allocated e) (root st) None e"
    by (simp add: alloc_inv_def)
  ultimately show ?thesis
    using seq_add_loop_rollback [of "chars_of s" "chars_of s" 0 "root st" "[]" None 0 e rt e2
        "root st" "allocated e"] l
    by simp
qed

text \<open>
  The theorem at a concrete input: adding 012 to \<open>store_a\<close> when the second allocation
  fails. The node for 01 is created, the node for 012 is not, and the call leaves
  \<open>store_a\<close>.
\<close>

theorem seq_add_rollback_witness:
  "root store_a \<noteq> Null
   \<and> fst (check_str_for_inval (Ptr 5 ''012'') \<lparr>errno = 0, mallocs = [True, False], allocated = 5\<rparr>) = 0
   \<and> seq_add store_a (Ptr 5 ''012'') \<lparr>errno = 0, mallocs = [True, False], allocated = 5\<rparr>
       = (- 1, store_a, \<lparr>errno = ENOMEM, mallocs = [], allocated = 5\<rparr>)
   \<and> seq_valid store_a (Ptr 6 ''01'') \<lparr>errno = 0, mallocs = [], allocated = 5\<rparr> = (0, \<lparr>errno = 0, mallocs = [], allocated = 5\<rparr>)"
proof -
  have h1: "root store_a \<noteq> Null" by code_simp
  have h2: "fst (check_str_for_inval (Ptr 5 ''012'') \<lparr>errno = 0, mallocs = [True, False], allocated = 5\<rparr>) = 0"
    by code_simp
  have h3: "seq_add store_a (Ptr 5 ''012'') \<lparr>errno = 0, mallocs = [True, False], allocated = 5\<rparr>
      = (- 1, \<lparr>root = root store_a, abstract_classes_amount = 1\<rparr>, \<lparr>errno = 12, mallocs = [], allocated = 5\<rparr>)"
    by code_simp
  have h4: "seq_valid store_a (Ptr 6 ''01'') \<lparr>errno = 0, mallocs = [], allocated = 5\<rparr> = (0, \<lparr>errno = 0, mallocs = [], allocated = 5\<rparr>)"
    by code_simp
  from seq_add_rollback [OF h1 h2 h3] h1 h2 h3 h4 show ?thesis
    by (simp add: ENOMEM_def)
qed

text \<open>
  Claim C3 (allocation failure while renaming a class). The claim: when an allocation
  fails while \<open>seq_set_name\<close> renames the nodes of a class, the scan stops and the call
  reports the failure. The code does not: in \<open>store_b\<close> the sequences 0 and 01 form class
  2 with the name A; when the only allocation that fails is the first one, the node of 01
  loses its name, the scan goes on and renames the node of 0, and \<open>seq_set_name\<close> returns
  \<open>1\<close>, the result of a successful call (with \<open>errno\<close> set to \<open>ENOMEM\<close>).
\<close>

theorem seq_set_name_allocation_failure:
  "seq_set_name store_b (Ptr 1 ''0'') (Ptr 3 ''Z'') \<lparr>errno = 0, mallocs = [False], allocated = 6\<rparr>
     = Some (1,
         \<lparr>root = Node (Node Null (Node Null Null Null None 2) Null (Some ''Z'') 2) Null Null
                  None (- 1),
          abstract_classes_amount = 2\<rparr>,
         \<lparr>errno = ENOMEM, mallocs = [], allocated = 5\<rparr>)"
  by code_simp

text \<open>
  Claim C4 (outcomes of \<open>seq_get_name\<close>). The claim says that a missing sequence and a
  sequence without a name give two outcomes that the caller can tell apart. In the code
  both give the same: NULL with \<open>errno\<close> set to \<open>0\<close>. In \<open>store_a\<close> the sequence 1 is
  present without a name and the sequence 2 is missing.
\<close>

theorem seq_get_name_not_distinct:
  "fst (seq_valid store_a (Ptr 2 ''1'') \<lparr>errno = 7, mallocs = [], allocated = 5\<rparr>) = 1
   \<and> fst (seq_valid store_a (Ptr 3 ''2'') \<lparr>errno = 7, mallocs = [], allocated = 5\<rparr>) = 0
   \<and> seq_get_name store_a (Ptr 2 ''1'') \<lparr>errno = 7, mallocs = [], allocated = 5\<rparr> = (None, \<lparr>errno = 0, mallocs = [], allocated = 5\<rparr>)
   \<and> seq_get_name store_a (Ptr 3 ''2'') \<lparr>errno = 7, mallocs = [], allocated = 5\<rparr> = (None, \<lparr>errno = 0, mallocs = [], allocated = 5\<rparr>)"
  by code_simp

text \<open>
  Claim C4 as amended: for every valid sequence, \<open>seq_get_name\<close> returns NULL and sets
  \<open>errno\<close> to \<open>0\<close> both when the sequence is missing and when its node has no name, and
  returns the name of the node, leaving \<open>errno\<close> as it is, when the node has one.
\<close>

theorem seq_get_name_outcomes:
  assumes "root st \<noteq> Null" and "fst (check_str_for_inval s e) = 0"
  shows "seq_get_name st s e =
     (if fst (seq_valid st s e) = 0 then (None, e\<lparr>errno := 0\<rparr>)
      else case abstract_class_name (node_at (root st) (chars_of s)) of
             None \<Rightarrow> (None, e\<lparr>errno := 0\<rparr>)
           | Some name \<Rightarrow> (Some name, e))"
  using assms
  by (auto simp: seq_get_name_def seq_valid_walk check_str_for_inval_ok
      dest: walk_node_at walk_not_Null split: option.splits)

theorem seq_get_name_outcomes_witness:
  "root store_a \<noteq> Null
   \<and> fst (check_str_for_inval (Ptr 1 ''0'') \<lparr>errno = 7, mallocs = [], allocated = 5\<rparr>) = 0
   \<and> seq_get_name store_a (Ptr 1 ''0'') \<lparr>errno = 7, mallocs = [], allocated = 5\<rparr>
       = (Some ''A'', \<lparr>errno = 7, mallocs = [], allocated = 5\<rparr>)"
proof -
  have h1: "root store_a \<noteq> Null" by code_simp
  have h2: "fst (check_str_for_inval (Ptr 1 ''0'') \<lparr>errno = 7, mallocs = [], allocated = 5\<rparr>) = 0"
    by code_simp
  have h3: "fst (seq_valid store_a (Ptr 1 ''0'') \<lparr>errno = 7, mallocs = [], allocated = 5\<rparr>) = 1" by code_simp
  have h4: "abstract_class_name (node_at (root store_a) (chars_of (Ptr 1 ''0''))) = Some ''A''"
    by code_simp
  from seq_get_name_outcomes [OF h1 h2] h1 h2 h3 h4 show ?thesis by simp
qed

text \<open>
  Claim C5 (a new name reaches the whole class). The claim: after a successful
  \<open>seq_set_name\<close> on a sequence that has a class, every node of the store with that class
  has the new name. The code does not ensure it: \<open>recur_seq_name\<close> turns the failure of
  \<open>replace_or_set_seq_name\<close> into \<open>0\<close>, so a call in which an allocation fails can still
  return \<open>1\<close>. In \<open>store_b\<close> the sequences 0 and 01 form class 2; the name of 0 is set to
  Z and the first allocation fails. The call returns \<open>1\<close>; afterwards the nodes of 0 and
  01 still have class 2, the node of 0 has the name Z, and the node of 01 has no name, so
  that \<open>seq_get_name\<close> returns NULL for 01.
\<close>

theorem seq_set_name_broadcast_incomplete:
  "seq_set_name store_b (Ptr 1 ''0'') (Ptr 3 ''Z'') \<lparr>errno = 0, mallocs = [False], allocated = 6\<rparr>
     = Some (1,
         \<lparr>root = Node (Node Null (Node Null Null Null None 2) Null (Some ''Z'') 2) Null Null
                  None (- 1),
          abstract_classes_amount = 2\<rparr>,
         \<lparr>errno = ENOMEM, mallocs = [], allocated = 5\<rparr>)
   \<and> abstract_class (node_at (root store_b) ''0'') = 2
   \<and> abstract_class (node_at (root store_b) ''01'') = 2
   \<and> abstract_class
        (node_at (Node (Node Null (Node Null Null Null None 2) Null (Some ''Z'') 2) Null Null
                    None (- 1)) ''0'') = 2
   \<and> abstract_class_name
        (node_at (Node (Node Null (Node Null Null Null None 2) Null (Some ''Z'') 2) Null Null
                    None (- 1)) ''0'') = Some ''Z''
   \<and> abstract_class
        (node_at (Node (Node Null (Node Null Null Null None 2) Null (Some ''Z'') 2) Null Null
                    None (- 1)) ''01'') = 2
   \<and> abstract_class_name
        (node_at (Node (Node Null (Node Null Null Null None 2) Null (Some ''Z'') 2) Null Null
                    None (- 1)) ''01'') = None
   \<and> fst (seq_get_name
          \<lparr>root = Node (Node Null (Node Null Null Null None 2) Null (Some ''Z'') 2) Null Null
                   None (- 1),
           abstract_classes_amount = 2\<rparr>
          (Ptr 2 ''01'') \<lparr>errno = ENOMEM, mallocs = [], allocated = 5\<rparr>) = None"
  by code_simp

text \<open>
  When no allocation fails the new name does reach the whole class. For a present
  sequence whose node has a class and a name other than the new one, and when no
  allocation fails, \<open>seq_set_name\<close> returns \<open>1\<close>, leaves the counter as it is, and every
  node of the store that has the class of the endpoint has the new name afterwards (and
  still that class).
\<close>

theorem seq_set_name_broadcast:
  assumes "fst (seq_valid st s e) = 1" and "name \<noteq> []"
    and "abstract_class (node_at (root st) (chars_of s)) = c" and "c \<noteq> - 1"
    and "abstract_class_name (node_at (root st) (chars_of s)) \<noteq> Some name"
    and "\<forall>b \<in> set (mallocs e). b"
  shows "\<exists>st' e'. seq_set_name st s (Ptr a name) e = Some (1, st', e')
           \<and> abstract_classes_amount st' = abstract_classes_amount st
           \<and> (\<forall>q v. walk (root st) q = Some v \<and> abstract_class v = c \<longrightarrow>
                 (\<exists>v'. walk (root st') q = Some v' \<and> abstract_class v' = c
                       \<and> abstract_class_name v' = Some name))"
proof -
  from seq_valid_present [OF assms(1)]
  have k: "fst (check_str_for_inval s e) = 0" and r: "root st \<noteq> Null"
    and w: "walk (root st) (chars_of s) \<noteq> None" by auto
  from w obtain cur where cur: "walk (root st) (chars_of s) = Some cur" by auto
  note cn = walk_node_at [OF cur]
  obtain res rt e2 where rs: "recur_seq_name (root st) name c e = (res, rt, e2)"
    by (cases "recur_seq_name (root st) name c e")
  note l = recur_seq_name_label [OF rs assms(6)]
  from l r have res: "res = 1" by simp
  from assms(2-5) k r cur cn rs res
  have call: "seq_set_name st s (Ptr a name) e = Some (1, st\<lparr>root := rt\<rparr>, e2)"
    by (simp add: seq_set_name_def check_str_for_inval_ok)
  have "\<exists>v'. walk rt q = Some v' \<and> abstract_class v' = c \<and> abstract_class_name v' = Some name"
    if "walk (root st) q = Some v" "abstract_class v = c" for q v
  proof -
    from walk_not_Null [OF that(1) r] walk_node_at [OF that(1)] that(2)
    have "\<exists>nm. label (node_at (root st) q) = Some (nm, c)" by (simp add: label_Some_iff)
    with l have lq: "label (node_at rt q) = Some (Some name, c)" by auto
    then have "walk rt q \<noteq> None" by (auto simp: walk_iff label_None_iff dest!: arg_cong [where f = label])
    then obtain v' where v': "walk rt q = Some v'" by auto
    with lq walk_node_at [OF v'] show ?thesis by (auto simp: label_Some_iff)
  qed
  then have "\<forall>q v. walk (root st) q = Some v \<and> abstract_class v = c \<longrightarrow>
      (\<exists>v'. walk (root (st\<lparr>root := rt\<rparr>)) q = Some v' \<and> abstract_class v' = c
            \<and> abstract_class_name v' = Some name)"
    by simp
  with call show ?thesis by (intro exI conjI) (assumption, simp, assumption)
qed

text \<open>
  The theorem at the input of the specification: in \<open>store_b\<close> the sequence 01 has joined
  the class of 0 by \<open>seq_equiv\<close>; after the name of 0 is set to Z, \<open>seq_get_name\<close> returns
  Z for 01.
\<close>

theorem seq_set_name_broadcast_witness:
  "fst (seq_valid store_b (Ptr 1 ''0'') \<lparr>errno = 0, mallocs = [True, True], allocated = 6\<rparr>) = 1
   \<and> abstract_class (node_at (root store_b) (chars_of (Ptr 1 ''0''))) = 2
   \<and> abstract_class_name (node_at (root store_b) (chars_of (Ptr 1 ''0''))) = Some ''A''
   \<and> False \<notin> set (mallocs \<lparr>errno = 0, mallocs = [True, True], allocated = 6\<rparr>)
   \<and> (\<exists>st' e'. seq_set_name store_b (Ptr 1 ''0'') (Ptr 3 ''Z'') \<lparr>errno = 0, mallocs = [True, True], allocated = 6\<rparr>
                   = Some (1, st', e')
               \<and> fst (seq_get_name st' (Ptr 2 ''01'') e') = Some ''Z'')"
proof -
  let ?e = "\<lparr>errno = 0, mallocs = [True, True], allocated = 6\<rparr>"
  have h1: "fst (seq_valid store_b (Ptr 1 ''0'') ?e) = 1" by code_simp
  have h2: "''Z'' \<noteq> []" by simp
  have h3: "abstract_class (node_at (root store_b) (chars_of (Ptr 1 ''0''))) = 2" by code_simp
  have h4: "(2::int) \<noteq> - 1" by simp
  have h5: "abstract_class_name (node_at (root store_b) (chars_of (Ptr 1 ''0''))) = Some ''A''"
    by code_simp
  then have h5': "abstract_class_name (node_at (root store_b) (chars_of (Ptr 1 ''0''))) \<noteq> Some ''Z''"
    by simp
  have h6: "\<forall>b \<in> set (mallocs ?e). b" by simp
  from seq_set_name_broadcast [OF h1 h2 h3 h4 h5' h6, of 3] obtain st' e' where
    call: "seq_set_name store_b (Ptr 1 ''0'') (Ptr 3 ''Z'') ?e = Some (1, st', e')"
    and all: "\<forall>q v. walk (root store_b) q = Some v \<and> abstract_class v = 2 \<longrightarrow>
      (\<exists>v'. walk (root st') q = Some v' \<and> abstract_class v' = 2 \<and> abstract_class_name v' = Some ''Z'')"
    by blast
  have "walk (root store_b) ''01'' = Some (Node Null Null Null (Some ''A'') 2)
      \<and> abstract_class (Node Null Null Null (Some ''A'') 2) = 2"
    by (simp add: store_b_def)
  with all obtain v' where v': "walk (root st') ''01'' = Some v'" "abstract_class_name v' = Some ''Z''"
    by blast
  from v'(1) have r: "root st' \<noteq> Null" by (auto simp: walk_Null)
  have k: "fst (check_str_for_inval (Ptr 2 ''01'') e') = 0" by (simp add: check_str_for_inval_def)
  from v' r k have "fst (seq_get_name st' (Ptr 2 ''01'') e') = Some ''Z''"
    by (simp add: seq_get_name_def check_str_for_inval_ok)
  with call h1 h3 h5 show ?thesis by auto
qed



text \<open>
  Claim C7 (prefix closure). In every store, and so in every store that the operations
  can reach, a valid sequence that is a prefix of a present sequence is present; and
  after \<open>seq_add\<close> has added a sequence (result \<open>0\<close> or \<open>1\<close>), every valid prefix of the
  sequence is present.
\<close>

theorem prefix_closure:
  assumes "fst (check_str_for_inval t e1) = 0" and "prefix (chars_of t) (chars_of s)"
  shows "(fst (seq_valid st s e) = 1 \<longrightarrow> fst (seq_valid st t e1) = 1)
       \<and> (root st \<noteq> Null \<and> fst (check_str_for_inval s e) = 0 \<and> seq_add st s e = (r, st', e') \<and> r \<noteq> - 1
            \<longrightarrow> fst (seq_valid st' t e1) = 1)"
proof (intro conjI impI)
  assume "fst (seq_valid st s e) = 1"
  from seq_valid_present [OF this]
  have w: "walk (root st) (chars_of s) \<noteq> None" and r: "root st \<noteq> Null" by auto
  from walk_prefix [OF w assms(2)] r assms(1) show "fst (seq_valid st t e1) = 1"
    by (simp add: seq_valid_walk)
next
  assume "root st \<noteq> Null \<and> fst (check_str_for_inval s e) = 0 \<and> seq_add st s e = (r, st', e') \<and> r \<noteq> - 1"
  then have r: "root st' \<noteq> Null" and w: "walk (root st') (chars_of s) \<noteq> None"
    using seq_add_present by blast+
  from walk_prefix [OF w assms(2)] r assms(1) show "fst (seq_valid st' t e1) = 1"
    by (simp add: seq_valid_walk)
qed

theorem prefix_closure_witness:
  "fst (check_str_for_inval (Ptr 1 ''0'') \<lparr>errno = 0, mallocs = [], allocated = 5\<rparr>) = 0
   \<and> prefix (chars_of (Ptr 1 ''0'')) (chars_of (Ptr 2 ''01''))
   \<and> fst (seq_valid store_c (Ptr 2 ''01'') \<lparr>errno = 0, mallocs = [], allocated = 5\<rparr>) = 1
   \<and> fst (seq_valid store_c (Ptr 1 ''0'') \<lparr>errno = 0, mallocs = [], allocated = 5\<rparr>) = 1
   \<and> seq_add store_a (Ptr 2 ''01'') \<lparr>errno = 0, mallocs = [], allocated = 5\<rparr>
       = (1, \<lparr>root = Node (Node Null (Node Null Null Null None (- 1)) Null (Some ''A'') 1)
                      (Node Null Null Null None (- 1)) Null None (- 1),
              abstract_classes_amount = 1\<rparr>, \<lparr>errno = 0, mallocs = [], allocated = 6\<rparr>)"
proof -
  let ?e = "\<lparr>errno = 0, mallocs = [], allocated = 5\<rparr>"
  have h1: "fst (check_str_for_inval (Ptr 1 ''0'') ?e) = 0" by code_simp
  have h2: "prefix (chars_of (Ptr 1 ''0'')) (chars_of (Ptr 2 ''01''))" by simp
  have h3: "fst (seq_valid store_c (Ptr 2 ''01'') ?e) = 1" by code_simp
  have h4: "seq_add store_a (Ptr 2 ''01'') ?e
       = (1, \<lparr>root = Node (Node Null (Node Null Null Null None (- 1)) Null (Some ''A'') 1)
                      (Node Null Null Null None (- 1)) Null None (- 1),
              abstract_classes_amount = 1\<rparr>, \<lparr>errno = 0, mallocs = [], allocated = 6\<rparr>)"
    by code_simp
  from prefix_closure [OF h1 h2, of store_c ?e] h3
  have "fst (seq_valid store_c (Ptr 1 ''0'') ?e) = 1" by blast
  with h1 h2 h3 h4 show ?thesis by simp
qed

text \<open>
  Claim C8 (class numbers are not used again). Take any run of calls on a store made by
  \<open>seq_new\<close>, and any call \<open>j\<close> of the run. The counter is \<open>0\<close> in the new store. The call
  leaves the counter as it is or advances it by one. A class number that is on a node
  after the call and was on no node before it is the counter before the call plus one,
  the call has advanced the counter by one, and the number is not \<open>-1\<close> and was on no
  node in any earlier store of the run. A call that advances the counter leaves the new
  value of the counter on a node. (In a run the counter cannot pass \<open>INT_MAX\<close>:
  the increment would be undefined behaviour, and such a run has no result.)
\<close>

theorem class_ids_never_reused:
  assumes "seq_new e = (Some st0, e0)" and "run cs st0 e0 = Some h"
    and "Suc j < length h" and "i \<le> j"
  shows "abstract_classes_amount st0 = 0
       \<and> (abstract_classes_amount (h ! Suc j) = abstract_classes_amount (h ! j)
            \<or> abstract_classes_amount (h ! Suc j) = abstract_classes_amount (h ! j) + 1)
       \<and> (\<forall>k \<in> set (classes_in (root (h ! Suc j))).
             k \<notin> set (classes_in (root (h ! j))) \<longrightarrow>
               k = abstract_classes_amount (h ! j) + 1
               \<and> abstract_classes_amount (h ! Suc j) = abstract_classes_amount (h ! j) + 1
               \<and> k \<noteq> - 1
               \<and> k \<notin> set (classes_in (root (h ! i))))
       \<and> (abstract_classes_amount (h ! Suc j) = abstract_classes_amount (h ! j) + 1 \<longrightarrow>
             abstract_classes_amount (h ! Suc j) \<in> set (classes_in (root (h ! Suc j))))"
proof -
  note n = seq_new_inv [OF assms(1)]
  from n have inv: "store_inv st0" by simp
  note s = run_steps [OF inv assms(2,3)]
  from assms(3) have j: "j < length h" by simp
  note m = run_amount_mono [OF inv assms(2) j assms(4)]
  have old: "k \<le> abstract_classes_amount (h ! j)" if "k \<in> set (classes_in (root (h ! i)))" for k
    using that m s by (auto simp: store_inv_def)
  from s have a: "0 \<le> abstract_classes_amount (h ! j)" by (simp add: store_inv_def)
  from s have am: "abstract_classes_amount (h ! Suc j) = abstract_classes_amount (h ! j)
      \<or> abstract_classes_amount (h ! Suc j) = abstract_classes_amount (h ! j) + 1"
    by (auto simp: mints_def)
  have new: "k = abstract_classes_amount (h ! j) + 1
      \<and> abstract_classes_amount (h ! Suc j) = abstract_classes_amount (h ! j) + 1
      \<and> k \<noteq> - 1 \<and> k \<notin> set (classes_in (root (h ! i)))"
    if "k \<in> set (classes_in (root (h ! Suc j)))" "k \<notin> set (classes_in (root (h ! j)))" for k
  proof -
    from s that have "k = abstract_classes_amount (h ! j) + 1
        \<and> abstract_classes_amount (h ! Suc j) = abstract_classes_amount (h ! j) + 1"
      unfolding mints_def by blast
    with a old [of k] show ?thesis by auto
  qed
  from s have adv: "abstract_classes_amount (h ! Suc j) \<in> set (classes_in (root (h ! Suc j)))"
    if "abstract_classes_amount (h ! Suc j) = abstract_classes_amount (h ! j) + 1"
    using that by (auto simp: mints_def)
  from n am new adv show ?thesis by blast
qed

text \<open>
  The theorem at a concrete run: 0 and 1 are added, 0 is given the name A (class 1) and
  0 and 1 are made equivalent (class 2). The fourth call advances the counter from 1 to
  2, and the class number 2 is on no node before it.
\<close>

theorem class_ids_never_reused_witness:
  "seq_new \<lparr>errno = 0, mallocs = [], allocated = 0\<rparr>
     = (Some \<lparr>root = Node Null Null Null None (- 1), abstract_classes_amount = 0\<rparr>,
        \<lparr>errno = 0, mallocs = [], allocated = 2\<rparr>)
   \<and> run [Add (Ptr 1 ''0''), Add (Ptr 2 ''1''), Set_name (Ptr 1 ''0'') (Ptr 3 ''A''),
           Equiv (Ptr 1 ''0'') (Ptr 2 ''1'')]
        \<lparr>root = Node Null Null Null None (- 1), abstract_classes_amount = 0\<rparr>
        \<lparr>errno = 0, mallocs = [], allocated = 2\<rparr>
       = Some example_run
   \<and> Suc 3 < length example_run
   \<and> 2 \<in> set (classes_in (root (example_run ! Suc 3)))
   \<and> 2 \<notin> set (classes_in (root (example_run ! 3)))
   \<and> abstract_classes_amount (example_run ! 3) = 1
   \<and> abstract_classes_amount (example_run ! Suc 3) = 2
   \<and> 2 \<notin> set (classes_in (root (example_run ! 2)))"
proof -
  let ?ini = "\<lparr>errno = 0, mallocs = [], allocated = 0\<rparr>"
  let ?e = "\<lparr>errno = 0, mallocs = [], allocated = 2\<rparr>"
  let ?new = "\<lparr>root = Node Null Null Null None (- 1), abstract_classes_amount = 0\<rparr>"
  let ?cs = "[Add (Ptr 1 ''0''), Add (Ptr 2 ''1''), Set_name (Ptr 1 ''0'') (Ptr 3 ''A''),
           Equiv (Ptr 1 ''0'') (Ptr 2 ''1'')]"
  have h1: "seq_new ?ini = (Some ?new, ?e)" by code_simp
  have h2: "run ?cs ?new ?e = Some example_run" by code_simp
  have h3: "Suc 3 < length example_run" by code_simp
  have h4: "(2::nat) \<le> 3" by simp
  have m1: "2 \<in> set (classes_in (root (example_run ! Suc 3)))" by code_simp
  have m2: "2 \<notin> set (classes_in (root (example_run ! 3)))" by code_simp
  have m3: "abstract_classes_amount (example_run ! 3) = 1" by code_simp
  note t = class_ids_never_reused [OF h1 h2 h3 h4, THEN conjunct2, THEN conjunct2, THEN conjunct1,
      rule_format, OF m1 m2]
  from t have n1: "abstract_classes_amount (example_run ! Suc 3)
      = abstract_classes_amount (example_run ! 3) + 1" by (elim conjE)
  from t have n2: "2 \<notin> set (classes_in (root (example_run ! 2)))" by (elim conjE)
  from n1 m3 have n3: "abstract_classes_amount (example_run ! Suc 3) = 2" by linarith
  show ?thesis by (intro conjI) (fact h1 h2 h3 m1 m2 m3 n3 n2)+
qed

text \<open>
  Claim C9 (\<open>seq_remove\<close>). For every valid sequence \<open>s\<close>: when a prefix of \<open>s\<close> is missing,
  \<open>seq_remove\<close> returns \<open>0\<close> and leaves the store as it is; otherwise it returns \<open>1\<close>, the
  blocks of the subtree of \<open>s\<close> are freed, and afterwards a valid sequence that begins
  with \<open>s\<close> is missing, and any other valid sequence is present exactly when it was
  present before.
\<close>

theorem seq_remove_cascades:
  assumes "root st \<noteq> Null" and "fst (check_str_for_inval s e) = 0"
    and "seq_remove st s e = (r, st', e')"
  shows "((\<exists>p e1. fst (check_str_for_inval p e1) = 0 \<and> prefix (chars_of p) (chars_of s)
                \<and> fst (seq_valid st p e1) = 0) \<longrightarrow> r = 0 \<and> st' = st)
       \<and> (\<not> (\<exists>p e1. fst (check_str_for_inval p e1) = 0 \<and> prefix (chars_of p) (chars_of s)
                \<and> fst (seq_valid st p e1) = 0) \<longrightarrow>
            r = 1 \<and> allocated e' = allocated e - blocks (node_at (root st) (chars_of s))
            \<and> (\<forall>t e1. fst (check_str_for_inval t e1) = 0 \<longrightarrow>
                  fst (seq_valid st' t e1)
                    = (if prefix (chars_of s) (chars_of t) then 0 else fst (seq_valid st t e1))))"
proof -
  let ?cs = "chars_of s"
  let ?missing = "\<exists>p e1. fst (check_str_for_inval p e1) = 0 \<and> prefix (chars_of p) ?cs
                \<and> fst (seq_valid st p e1) = 0"
  have m: "?missing \<longleftrightarrow> walk (root st) ?cs = None"
  proof
    assume ?missing
    then obtain p e1 where "fst (check_str_for_inval p e1) = 0" "prefix (chars_of p) ?cs"
      "fst (seq_valid st p e1) = 0" by blast
    with assms(1) have "walk (root st) (chars_of p) = None"
      by (simp add: seq_valid_walk split: if_splits)
    with walk_prefix [of "root st" ?cs "chars_of p"] \<open>prefix (chars_of p) ?cs\<close>
    show "walk (root st) ?cs = None" by blast
  next
    assume "walk (root st) ?cs = None"
    with assms(1,2) have "fst (check_str_for_inval s e) = 0 \<and> prefix ?cs ?cs \<and> fst (seq_valid st s e) = 0"
      by (simp add: seq_valid_walk)
    then show ?missing by blast
  qed
  show ?thesis
  proof (cases "walk (root st) ?cs")
    case None
    with assms m show ?thesis
      by (auto simp: seq_remove_def check_str_for_inval_ok)
  next
    case (Some v)
    let ?rt = "assign_at (root st) (butlast ?cs) (set_next (node_at (root st) (butlast ?cs)) (last ?cs) Null)"
    from assms Some have r: "r = 1" and st': "st' = st\<lparr>root := ?rt\<rparr>"
      and e': "e' = seq_remove_recur v e"
      by (auto simp: seq_remove_def check_str_for_inval_ok)
    from e' walk_node_at [OF Some]
    have al: "allocated e' = allocated e - blocks (node_at (root st) ?cs)"
      by (simp add: seq_remove_recur_fields)
    have ne: "?cs \<noteq> []" using assms(2) by (rule check_str_for_inval_ok)
    have nn: "?rt \<noteq> Null"
      using assms(1) ne by (cases "butlast ?cs") (auto simp: set_next_Null_iff)
    have "fst (seq_valid st' t e1) = (if prefix ?cs (chars_of t) then 0 else fst (seq_valid st t e1))"
      if "fst (check_str_for_inval t e1) = 0" for t e1
      using walk_detach [of "root st" ?cs "chars_of t"] Some ne nn that assms(1) st'
      by (auto simp: seq_valid_walk)
    with r al Some m show ?thesis by simp
  qed
qed

text \<open>
  The theorem at the input of the specification: \<open>store_c\<close> holds 0, 01 and 02, and after
  the removal of 0 the sequences 01 and 02 are missing.
\<close>

theorem seq_remove_cascades_witness:
  "root store_c \<noteq> Null
   \<and> fst (check_str_for_inval (Ptr 1 ''0'') \<lparr>errno = 0, mallocs = [], allocated = 5\<rparr>) = 0
   \<and> seq_remove store_c (Ptr 1 ''0'') \<lparr>errno = 0, mallocs = [], allocated = 5\<rparr>
       = (1, \<lparr>root = Node Null Null Null None (- 1), abstract_classes_amount = 0\<rparr>,
          \<lparr>errno = 0, mallocs = [], allocated = 2\<rparr>)
   \<and> fst (seq_valid \<lparr>root = Node Null Null Null None (- 1), abstract_classes_amount = 0\<rparr>
            (Ptr 2 ''01'') \<lparr>errno = 0, mallocs = [], allocated = 5\<rparr>) = 0
   \<and> fst (seq_valid \<lparr>root = Node Null Null Null None (- 1), abstract_classes_amount = 0\<rparr>
            (Ptr 3 ''02'') \<lparr>errno = 0, mallocs = [], allocated = 5\<rparr>) = 0"
proof -
  let ?e = "\<lparr>errno = 0, mallocs = [], allocated = 5\<rparr>"
  let ?st = "\<lparr>root = Node Null Null Null None (- 1), abstract_classes_amount = 0\<rparr>"
  have h1: "root store_c \<noteq> Null" by code_simp
  have h2: "fst (check_str_for_inval (Ptr 1 ''0'') ?e) = 0" by code_simp
  have h3: "seq_remove store_c (Ptr 1 ''0'') ?e
      = (1, ?st, \<lparr>errno = 0, mallocs = [], allocated = 2\<rparr>)" by code_simp
  have v1: "fst (check_str_for_inval (Ptr 2 ''01'') ?e) = 0" by code_simp
  have v2: "fst (check_str_for_inval (Ptr 3 ''02'') ?e) = 0" by code_simp
  have present: "\<not> (\<exists>p e1. fst (check_str_for_inval p e1) = 0
      \<and> prefix (chars_of p) (chars_of (Ptr 1 ''0'')) \<and> fst (seq_valid store_c p e1) = 0)"
  proof
    assume "\<exists>p e1. fst (check_str_for_inval p e1) = 0
      \<and> prefix (chars_of p) (chars_of (Ptr 1 ''0'')) \<and> fst (seq_valid store_c p e1) = 0"
    then obtain p e1 where p: "fst (check_str_for_inval p e1) = 0"
      "prefix (chars_of p) ''0''" "fst (seq_valid store_c p e1) = 0" by auto
    from p(1) have "chars_of p \<noteq> []" by (rule check_str_for_inval_ok)
    with p(2) have "chars_of p = ''0''" by (auto simp: prefix_Cons)
    with p(1,3) h1 show False
      by (simp add: seq_valid_walk store_c_def)
  qed
  from seq_remove_cascades [OF h1 h2 h3] present
  have all: "\<forall>t e1. fst (check_str_for_inval t e1) = 0 \<longrightarrow>
      fst (seq_valid ?st t e1) = (if prefix (chars_of (Ptr 1 ''0'')) (chars_of t) then 0
                                  else fst (seq_valid store_c t e1))"
    by blast
  from all v1 have a: "fst (seq_valid ?st (Ptr 2 ''01'') ?e) = 0" by simp
  from all v2 have b: "fst (seq_valid ?st (Ptr 3 ''02'') ?e) = 0" by simp
  from h1 h2 h3 a b show ?thesis by simp
qed

text \<open>
  Claim C10 (\<open>seq_equiv\<close> on equal arguments). The claim says that \<open>seq_equiv\<close> on two
  equal sequences returns \<open>0\<close> and changes nothing, also when the node has no class. The
  code compares the two pointers, not the characters: in \<open>store_a\<close> the sequence 1 has no
  class, and \<open>seq_equiv\<close> on two strings with the characters 1 at different addresses
  gives the node the new class 2 and returns \<open>1\<close>.
\<close>

theorem seq_equiv_equal_strings:
  "seq_equiv store_a (Ptr 2 ''1'') (Ptr 4 ''1'') \<lparr>errno = 0, mallocs = [], allocated = 5\<rparr>
     = Some (1,
         \<lparr>root = Node (Node Null Null Null (Some ''A'') 1) (Node Null Null Null None 2) Null
                  None (- 1),
          abstract_classes_amount = 2\<rparr>,
         \<lparr>errno = 0, mallocs = [], allocated = 5\<rparr>)"
  by code_simp

text \<open>
  Claim C10 as amended: when both arguments of \<open>seq_equiv\<close> are the same pointer to a
  valid sequence, the call returns \<open>0\<close> and changes neither the store nor \<open>errno\<close>,
  whatever the class of the node of the sequence, and also when the sequence is missing.
\<close>

theorem seq_equiv_same_pointer:
  assumes "root st \<noteq> Null" and "fst (check_str_for_inval s e) = 0"
  shows "seq_equiv st s s e = Some (0, st, e)"
proof -
  from assms(2) obtain a cs where "s = Ptr a cs"
    by (cases s) (auto simp: check_str_for_inval_def)
  with assms show ?thesis
    by (simp add: seq_equiv_def check_str_for_inval_ok)
qed

theorem seq_equiv_same_pointer_witness:
  "root store_a \<noteq> Null
   \<and> fst (check_str_for_inval (Ptr 2 ''1'') \<lparr>errno = 0, mallocs = [], allocated = 5\<rparr>) = 0
   \<and> abstract_class (node_at (root store_a) ''1'') = - 1
   \<and> seq_equiv store_a (Ptr 2 ''1'') (Ptr 2 ''1'') \<lparr>errno = 0, mallocs = [], allocated = 5\<rparr>
       = Some (0, store_a, \<lparr>errno = 0, mallocs = [], allocated = 5\<rparr>)"
proof -
  have h1: "root store_a \<noteq> Null" by code_simp
  have h2: "fst (check_str_for_inval (Ptr 2 ''1'') \<lparr>errno = 0, mallocs = [], allocated = 5\<rparr>) = 0"
    by code_simp
  have h3: "abstract_class (node_at (root store_a) ''1'') = - 1" by code_simp
  from seq_equiv_same_pointer [OF h1 h2] h1 h2 h3 show ?thesis by simp
qed

end
